theory Spec2Isabelle
  imports Complex_Main "HOL-Library.Monad_Syntax" "HOL-Library.Sublist"
begin

section \<open>The p-variation of a real sequence: embedding of \<^verbatim>\<open>p_var_real.cpp\<close>\<close>

text \<open>
  Conventions of the embedding.
  \<^item> \<^verbatim>\<open>double\<close> is idealised as \<open>real\<close>: no rounding, no NaN, no infinities.
  \<^item> \<^verbatim>\<open>size_t\<close> is \<open>nat\<close>: every index the code computes is at most the length of
    the input, so no unsigned wrap-around occurs, except in \<^verbatim>\<open>x.size()-1\<close>, which is
    written out.
  \<^item> A read or write of a vector outside its range is undefined behaviour in C++; in the
    model it is the value \<open>None\<close> of the inner \<open>option\<close>.
  \<^item> A loop whose exit depends on the data is an instance of \<open>loop\<close>, a
    \<^theory_text>\<open>partial_function\<close>; a loop that never returns is the value \<open>None\<close> of
    the outer \<open>option\<close>.
\<close>

subsection \<open>Types\<close>

record pointdata =
  prev :: nat
  "next" :: nat
  pvdiff :: real

type_synonym DoublyLinkedList = "pointdata list"

type_synonym NumericVector = "real list"

record pvtemppoint =
  it :: nat
  ev :: real

subsection \<open>Checked vector access\<close>

definition get :: "'a list \<Rightarrow> nat \<Rightarrow> 'a option" where
  "get xs i = (if i < length xs then Some (xs ! i) else None)"

definition upd :: "'a list \<Rightarrow> nat \<Rightarrow> ('a \<Rightarrow> 'a) \<Rightarrow> 'a list option" where
  "upd xs i f = (if i < length xs then Some (xs[i := f (xs ! i)]) else None)"

subsection \<open>Control flow\<close>

datatype ('s, 'r) flow = Continue 's | Return 'r

text \<open>
  \<open>loop body s\<close> runs \<open>body\<close> from state \<open>s\<close> until it returns.  The three results
  are \<open>None\<close> (the loop runs forever), \<open>Some None\<close> (an access out of range) and
  \<open>Some (Some r)\<close> (normal return).
\<close>

partial_function (option) loop ::
  "('s \<Rightarrow> ('s, 'r) flow option) \<Rightarrow> 's \<Rightarrow> 'r option option" where
  "loop body s =
     (case body s of
        None \<Rightarrow> Some None
      | Some (Return r) \<Rightarrow> Some (Some r)
      | Some (Continue s') \<Rightarrow> loop body s')"

definition seq :: "'a option option \<Rightarrow> ('a \<Rightarrow> 'b option option) \<Rightarrow> 'b option option" where
  "seq m f = (case m of None \<Rightarrow> None | Some None \<Rightarrow> Some None | Some (Some v) \<Rightarrow> f v)"

subsection \<open>\<^verbatim>\<open>pvar_diff\<close>\<close>

text \<open>
  \<^verbatim>\<open>std::pow(b, p)\<close> for a base \<open>b \<ge> 0\<close>: \<^verbatim>\<open>pow(b, 0)\<close> is 1 for every \<open>b\<close>,
  also for \<open>b = 0\<close>, where \<open>0 powr 0 = 0\<close> in HOL.  For \<open>p < 0\<close> and \<open>b = 0\<close> the C
  function returns an infinity, which \<open>real\<close> does not have: there \<open>std_pow\<close> is not
  the value of the code, and the statements below about the value of a power leave this
  case out.
\<close>

definition std_pow :: "real \<Rightarrow> real \<Rightarrow> real" where
  "std_pow b p = (if p = 0 then 1 else b powr p)"

definition pvar_diff :: "real \<Rightarrow> real \<Rightarrow> real" where
  "pvar_diff diff p = std_pow \<bar>diff\<bar> p"

subsection \<open>\<^verbatim>\<open>DetectLocalExtrema\<close>\<close>

text \<open>The loop state is \<open>(links, last_extremum, direction)\<close>; \<^verbatim>\<open>new_extremum\<close> is
  assigned afresh in every iteration.\<close>

definition DetectLocalExtrema_body ::
  "NumericVector \<Rightarrow> real \<Rightarrow> nat \<Rightarrow> DoublyLinkedList \<times> nat \<times> int
     \<Rightarrow> (DoublyLinkedList \<times> nat \<times> int) option" where
  "DetectLocalExtrema_body x p i s =
     (case s of (links, last_extremum, direction) \<Rightarrow>
        do {
          let n = length x;
          let j = i + 1;
          (new_extremum, direction) \<leftarrow>
            (if j \<noteq> n then
               do {
                 xj \<leftarrow> get x j;
                 xi \<leftarrow> get x i;
                 Some (if xj > xi then (direction = - 1, 1)
                       else if xj < xi then (direction = 1, - 1)
                       else (False, direction))
               }
             else Some (True, direction));
          if new_extremum then
            do {
              links \<leftarrow> upd links last_extremum (\<lambda>r. r\<lparr>next := i\<rparr>);
              links \<leftarrow> upd links i (\<lambda>r. r\<lparr>prev := last_extremum\<rparr>);
              xi \<leftarrow> get x i;
              xl \<leftarrow> get x last_extremum;
              links \<leftarrow> upd links i (\<lambda>r. r\<lparr>pvdiff := pvar_diff (xi - xl) p\<rparr>);
              Some (links, i, direction)
            }
          else Some (links, last_extremum, direction)
        })"

function DetectLocalExtrema_for ::
  "NumericVector \<Rightarrow> real \<Rightarrow> nat \<Rightarrow> DoublyLinkedList \<times> nat \<times> int
     \<Rightarrow> (DoublyLinkedList \<times> nat \<times> int) option" where
  "DetectLocalExtrema_for x p i s =
     (if i < length x then
        (case DetectLocalExtrema_body x p i s of
           None \<Rightarrow> None
         | Some s' \<Rightarrow> DetectLocalExtrema_for x p (i + 1) s')
      else Some s)"
  by pat_completeness auto
termination
  by (relation "measure (\<lambda>(x, p, i, s). length x - i)") auto

declare DetectLocalExtrema_for.simps [simp del]

definition DetectLocalExtrema ::
  "NumericVector \<Rightarrow> DoublyLinkedList \<Rightarrow> real \<Rightarrow> DoublyLinkedList option" where
  "DetectLocalExtrema x links p =
     do {
       let n = length x;
       links \<leftarrow> upd links 0 (\<lambda>r. r\<lparr>prev := 0\<rparr>);
       links \<leftarrow> upd links 0 (\<lambda>r. r\<lparr>pvdiff := 0\<rparr>);
       links \<leftarrow> upd links (length links - 1) (\<lambda>r. r\<lparr>next := n\<rparr>);
       (links, last_extremum, direction) \<leftarrow> DetectLocalExtrema_for x p 0 (links, 0, 0);
       Some links
     }"

subsection \<open>\<^verbatim>\<open>CheckShortIntervals\<close>\<close>

text \<open>A \<^verbatim>\<open>for\<close> loop with a fixed number of iterations whose body may return from the
  enclosing function.\<close>

fun repeat :: "nat \<Rightarrow> ('s \<Rightarrow> ('s, 'r) flow option) \<Rightarrow> 's \<Rightarrow> ('s, 'r) flow option" where
  "repeat 0 body s = Some (Continue s)"
| "repeat (Suc k) body s =
     (case body s of
        None \<Rightarrow> None
      | Some (Return r) \<Rightarrow> Some (Return r)
      | Some (Continue s') \<Rightarrow> repeat k body s')"

text \<open>Lines 79--85: the body of the first \<^verbatim>\<open>for\<close> loop, on \<open>(int_end, csum)\<close>.\<close>

definition CheckShortIntervals_first ::
  "NumericVector \<Rightarrow> DoublyLinkedList \<Rightarrow> nat \<times> real
     \<Rightarrow> (nat \<times> real, DoublyLinkedList) flow option" where
  "CheckShortIntervals_first x links s =
     (case s of (int_end, csum) \<Rightarrow>
        do {
          pe \<leftarrow> get links int_end;
          let int_end = next pe;
          if int_end = length x then Some (Return links)
          else
            do {
              pe \<leftarrow> get links int_end;
              Some (Continue (int_end, csum + pvdiff pe))
            }
        })"

text \<open>Lines 104--115: the body of the backtracking \<^verbatim>\<open>for\<close> loop, on
  \<open>(links, int_begin, int_end, csum)\<close>.\<close>

definition CheckShortIntervals_backtrack ::
  "NumericVector \<Rightarrow> DoublyLinkedList \<times> nat \<times> nat \<times> real
     \<Rightarrow> (DoublyLinkedList \<times> nat \<times> nat \<times> real, DoublyLinkedList) flow option" where
  "CheckShortIntervals_backtrack x s =
     (case s of (links, int_begin, int_end, csum) \<Rightarrow>
        if int_begin > 0 then
          do {
            pb \<leftarrow> get links int_begin;
            let csum = csum + pvdiff pb;
            pb \<leftarrow> get links int_begin;
            let int_begin = prev pb;
            Some (Continue (links, int_begin, int_end, csum))
          }
        else
          do {
            pe \<leftarrow> get links int_end;
            let int_end = next pe;
            if int_end = length x then Some (Return links)
            else
              do {
                pe \<leftarrow> get links int_end;
                Some (Continue (links, int_begin, int_end, csum + pvdiff pe))
              }
          })"

text \<open>Lines 88--116: the body of the \<^verbatim>\<open>while (true)\<close> loop.  \<^verbatim>\<open>csum\<close> is a running sum:
  the body reads whatever value the state holds and never recomputes it from the links,
  except after an erasure.\<close>

definition CheckShortIntervals_body ::
  "NumericVector \<Rightarrow> real \<Rightarrow> DoublyLinkedList \<times> nat \<times> nat \<times> real
     \<Rightarrow> (DoublyLinkedList \<times> nat \<times> nat \<times> real, DoublyLinkedList) flow option" where
  "CheckShortIntervals_body x p s =
     (case s of (links, int_begin, int_end, csum) \<Rightarrow>
        do {
          xb \<leftarrow> get x int_begin;
          xe \<leftarrow> get x int_end;
          let fjoinval = pvar_diff (xb - xe) p;
          if csum \<ge> fjoinval then
            do {
              pe \<leftarrow> get links int_end;
              let int_end = next pe;
              if int_end = length x then Some (Return links)
              else
                do {
                  pb \<leftarrow> get links int_begin;
                  let int_begin = next pb;
                  pb \<leftarrow> get links int_begin;
                  let csum = csum - pvdiff pb;
                  pe \<leftarrow> get links int_end;
                  let csum = csum + pvdiff pe;
                  Some (Continue (links, int_begin, int_end, csum))
                }
            }
          else
            do {
              links \<leftarrow> upd links int_begin (\<lambda>r. r\<lparr>next := int_end\<rparr>);
              links \<leftarrow> upd links int_end (\<lambda>r. r\<lparr>prev := int_begin\<rparr>);
              let int_begin = int_end;
              links \<leftarrow> upd links int_end (\<lambda>r. r\<lparr>pvdiff := fjoinval\<rparr>);
              let csum = 0;
              repeat 3 (CheckShortIntervals_backtrack x) (links, int_begin, int_end, csum)
            }
        })"

definition CheckShortIntervals ::
  "NumericVector \<Rightarrow> DoublyLinkedList \<Rightarrow> real \<Rightarrow> DoublyLinkedList option option" where
  "CheckShortIntervals x links p =
     (case repeat 3 (CheckShortIntervals_first x links) (0, 0) of
        None \<Rightarrow> Some None
      | Some (Return r) \<Rightarrow> Some (Some r)
      | Some (Continue (int_end, csum)) \<Rightarrow>
          loop (CheckShortIntervals_body x p) (links, 0, int_end, csum))"

subsection \<open>\<^verbatim>\<open>Merge2GoodInt\<close>\<close>

text \<open>Lines 159--174: the walk from \<open>v\<close> back to \<open>a\<close> (the local \<^verbatim>\<open>ev\<close> is \<open>evsum\<close>), on
  \<open>(prt_it, evsum, amin, amax, av_mins, av_maxs)\<close>.\<close>

definition Merge2GoodInt_back ::
  "NumericVector \<Rightarrow> DoublyLinkedList \<Rightarrow> nat
     \<Rightarrow> nat \<times> real \<times> real \<times> real \<times> pvtemppoint list \<times> pvtemppoint list
     \<Rightarrow> (nat \<times> real \<times> real \<times> real \<times> pvtemppoint list \<times> pvtemppoint list,
          pvtemppoint list \<times> pvtemppoint list) flow option" where
  "Merge2GoodInt_back x links a s =
     (case s of (prt_it, evsum, amin, amax, av_mins, av_maxs) \<Rightarrow>
        if prt_it \<noteq> a then
          do {
            pt \<leftarrow> get links prt_it;
            let evsum = evsum + pvdiff pt;
            pt \<leftarrow> get links prt_it;
            let prt_it = prev pt;
            xp \<leftarrow> get x prt_it;
            let av_maxs = (if xp > amax then av_maxs @ [\<lparr>it = prt_it, ev = evsum\<rparr>] else av_maxs);
            let amax = (if xp > amax then xp else amax);
            let av_mins = (if xp < amin then av_mins @ [\<lparr>it = prt_it, ev = evsum\<rparr>] else av_mins);
            let amin = (if xp < amin then xp else amin);
            Some (Continue (prt_it, evsum, amin, amax, av_mins, av_maxs))
          }
        else Some (Return (av_mins, av_maxs)))"

text \<open>Lines 180--195: the walk from \<open>v\<close> forward to \<open>b\<close>, on
  \<open>(prt_it, evsum, bmin, bmax, vb_mins, vb_maxs)\<close>.\<close>

definition Merge2GoodInt_forw ::
  "NumericVector \<Rightarrow> DoublyLinkedList \<Rightarrow> nat
     \<Rightarrow> nat \<times> real \<times> real \<times> real \<times> pvtemppoint list \<times> pvtemppoint list
     \<Rightarrow> (nat \<times> real \<times> real \<times> real \<times> pvtemppoint list \<times> pvtemppoint list,
          pvtemppoint list \<times> pvtemppoint list) flow option" where
  "Merge2GoodInt_forw x links b s =
     (case s of (prt_it, evsum, bmin, bmax, vb_mins, vb_maxs) \<Rightarrow>
        if prt_it \<noteq> b then
          do {
            pt \<leftarrow> get links prt_it;
            let prt_it = next pt;
            pt \<leftarrow> get links prt_it;
            let evsum = evsum + pvdiff pt;
            xp \<leftarrow> get x prt_it;
            let vb_maxs = (if xp > bmax then vb_maxs @ [\<lparr>it = prt_it, ev = evsum\<rparr>] else vb_maxs);
            let bmax = (if xp > bmax then xp else bmax);
            let vb_mins = (if xp < bmin then vb_mins @ [\<lparr>it = prt_it, ev = evsum\<rparr>] else vb_mins);
            let bmin = (if xp < bmin then xp else bmin);
            Some (Continue (prt_it, evsum, bmin, bmax, vb_mins, vb_maxs))
          }
        else Some (Return (vb_mins, vb_maxs)))"

text \<open>
  The search state is \<open>(maxbalance, takefjoin, tait, tbit, sbit)\<close>.  The iterators
  \<^verbatim>\<open>tait\<close> and \<^verbatim>\<open>tbit\<close> are only ever dereferenced, and the vectors they point into do
  not change in between, so the model keeps the element pointed to; \<open>None\<close> is the
  iterator before its first assignment.  \<^verbatim>\<open>bit\<close> (\<open>bpos\<close> below) and \<^verbatim>\<open>sbit\<close> are positions in
  the right-hand vector.
\<close>

type_synonym joint = "real \<times> real \<times> pvtemppoint option \<times> pvtemppoint option \<times> nat"

text \<open>Lines 202--211 (and 216--225): the inner \<^verbatim>\<open>for\<close> loop over \<^verbatim>\<open>bit\<close>.\<close>

function Merge2GoodInt_bits ::
  "NumericVector \<Rightarrow> real \<Rightarrow> pvtemppoint \<Rightarrow> pvtemppoint list \<Rightarrow> nat \<Rightarrow> joint \<Rightarrow> joint option" where
  "Merge2GoodInt_bits x p ait bs bpos s =
     (if bpos \<noteq> length bs then
        (case get bs bpos of
           None \<Rightarrow> None
         | Some b \<Rightarrow>
             (case
                (case s of (maxbalance, takefjoin, tait, tbit, sbit) \<Rightarrow>
                   do {
                     xa \<leftarrow> get x (it ait);
                     xb \<leftarrow> get x (it b);
                     let fjoin = pvar_diff (xa - xb) p;
                     let balance = fjoin - ev b - ev ait;
                     Some (if balance > maxbalance then (balance, fjoin, Some ait, Some b, bpos)
                           else s)
                   })
              of None \<Rightarrow> None
               | Some s' \<Rightarrow> Merge2GoodInt_bits x p ait bs (bpos + 1) s'))
      else Some s)"
  by pat_completeness auto
termination
  by (relation "measure (\<lambda>(x, p, ait, bs, bpos, s). length bs - bpos)")
     (auto simp: get_def split: if_splits)

declare Merge2GoodInt_bits.simps [simp del]

text \<open>Lines 201--212 (and 215--226): the outer \<^verbatim>\<open>for\<close> loop over \<^verbatim>\<open>ait\<close>; the inner
  loop starts at the current \<^verbatim>\<open>sbit\<close>.\<close>

fun Merge2GoodInt_aits ::
  "NumericVector \<Rightarrow> real \<Rightarrow> pvtemppoint list \<Rightarrow> pvtemppoint list \<Rightarrow> joint \<Rightarrow> joint option" where
  "Merge2GoodInt_aits x p [] bs s = Some s"
| "Merge2GoodInt_aits x p (ait # aits) bs s =
     (case Merge2GoodInt_bits x p ait bs (snd (snd (snd (snd s)))) s of
        None \<Rightarrow> None
      | Some s' \<Rightarrow> Merge2GoodInt_aits x p aits bs s')"

text \<open>Lines 198--233, given the four candidate vectors.\<close>

definition Merge2GoodInt_join ::
  "NumericVector \<Rightarrow> real \<Rightarrow> DoublyLinkedList
     \<Rightarrow> pvtemppoint list \<Rightarrow> pvtemppoint list \<Rightarrow> pvtemppoint list \<Rightarrow> pvtemppoint list
     \<Rightarrow> DoublyLinkedList option" where
  "Merge2GoodInt_join x p links av_mins av_maxs vb_mins vb_maxs =
     do {
       let takefjoin = 0;
       let maxbalance = 0;
       let sbit = 0;
       (maxbalance, takefjoin, tait, tbit, sbit) \<leftarrow>
          Merge2GoodInt_aits x p av_mins vb_maxs (maxbalance, takefjoin, None, None, sbit);
       let sbit = 0;
       (maxbalance, takefjoin, tait, tbit, sbit) \<leftarrow>
          Merge2GoodInt_aits x p av_maxs vb_mins (maxbalance, takefjoin, tait, tbit, sbit);
       if maxbalance > 0 then
         do {
           ta \<leftarrow> tait;
           tb \<leftarrow> tbit;
           links \<leftarrow> upd links (it ta) (\<lambda>r. r\<lparr>next := it tb\<rparr>);
           links \<leftarrow> upd links (it tb) (\<lambda>r. r\<lparr>prev := it ta\<rparr>);
           links \<leftarrow> upd links (it tb) (\<lambda>r. r\<lparr>pvdiff := takefjoin\<rparr>);
           Some links
         }
       else Some links
     }"

definition Merge2GoodInt ::
  "NumericVector \<Rightarrow> real \<Rightarrow> DoublyLinkedList \<Rightarrow> nat \<Rightarrow> nat \<Rightarrow> nat
     \<Rightarrow> DoublyLinkedList option option" where
  "Merge2GoodInt x p links a v b =
     (if a = v \<or> v = b then Some (Some links)
      else
        (case get x v of
           None \<Rightarrow> Some None
         | Some xv \<Rightarrow>
             seq (loop (Merge2GoodInt_back x links a) (v, 0, xv, xv, [], []))
               (\<lambda>(av_mins, av_maxs).
                  seq (loop (Merge2GoodInt_forw x links b) (v, 0, xv, xv, [], []))
                    (\<lambda>(vb_mins, vb_maxs).
                       Some (Merge2GoodInt_join x p links av_mins av_maxs vb_mins vb_maxs)))))"

subsection \<open>\<^verbatim>\<open>MergeIntervalsRecursively\<close>\<close>

text \<open>
  Lines 242--248: the walk that fills \<^verbatim>\<open>IterList\<close>, on \<open>(itr, count, IterList)\<close>
  (the local \<^verbatim>\<open>it\<close> is \<open>itr\<close>).  \<^verbatim>\<open>count\<close> is an \<^verbatim>\<open>int\<close> that is converted to
  \<^verbatim>\<open>size_t\<close> for \<^verbatim>\<open>count % LSI\<close>; it is modelled as \<open>nat\<close>.  A remainder by zero is
  undefined behaviour.
\<close>

definition MergeIntervalsRecursively_fill ::
  "NumericVector \<Rightarrow> DoublyLinkedList \<Rightarrow> nat \<Rightarrow> nat \<times> nat \<times> nat list
     \<Rightarrow> (nat \<times> nat \<times> nat list, nat list) flow option" where
  "MergeIntervalsRecursively_fill x links LSI s =
     (case s of (itr, count, IterList) \<Rightarrow>
        if itr < length x then
          if LSI = 0 then None
          else
            do {
              let IterList = (if count mod LSI = 0 then IterList @ [itr] else IterList);
              let count = count + 1;
              pt \<leftarrow> get links itr;
              Some (Continue (next pt, count, IterList))
            }
        else Some (Return IterList))"

text \<open>
  Lines 257--264: one pass of the inner \<^verbatim>\<open>while\<close> loop, in terms of the entries that
  the iterators point at.  \<open>front\<close> holds the entries of \<^verbatim>\<open>IterList\<close> before \<^verbatim>\<open>a_IL\<close>; the
  second argument starts at \<^verbatim>\<open>a_IL\<close>.  The loop continues while \<^verbatim>\<open>v_IL\<close> and \<^verbatim>\<open>b_IL\<close>
  both point at entries.  The increments of the iterators themselves, and whether each
  of them is defined, are in \<open>MergeIntervalsRecursively_inner\<close> below.
\<close>

fun MergeIntervalsRecursively_pass ::
  "NumericVector \<Rightarrow> real \<Rightarrow> DoublyLinkedList \<Rightarrow> nat list \<Rightarrow> nat list
     \<Rightarrow> (DoublyLinkedList \<times> nat list) option option" where
  "MergeIntervalsRecursively_pass x p links front (a # v # b # rest) =
     (case Merge2GoodInt x p links a v b of
        None \<Rightarrow> None
      | Some None \<Rightarrow> Some None
      | Some (Some links') \<Rightarrow> MergeIntervalsRecursively_pass x p links' (front @ [a]) (b # rest))"
| "MergeIntervalsRecursively_pass x p links front rest = Some (Some (links, front @ rest))"

text \<open>Lines 252--265: the outer \<^verbatim>\<open>while\<close> loop.\<close>

partial_function (option) MergeIntervalsRecursively_while ::
  "NumericVector \<Rightarrow> real \<Rightarrow> DoublyLinkedList \<Rightarrow> nat list \<Rightarrow> DoublyLinkedList option option" where
  "MergeIntervalsRecursively_while x p links IterList =
     (if length IterList > 2 then
        (case MergeIntervalsRecursively_pass x p links [] IterList of
           None \<Rightarrow> None
         | Some None \<Rightarrow> Some None
         | Some (Some (links', IterList')) \<Rightarrow>
             MergeIntervalsRecursively_while x p links' IterList')
      else Some (Some links))"

text \<open>\<^verbatim>\<open>x.size()-1\<close> in \<^verbatim>\<open>size_t\<close> (64 bits).\<close>

definition size_minus_1 :: "NumericVector \<Rightarrow> nat" where
  "size_minus_1 x = (if length x = 0 then 2 ^ 64 - 1 else length x - 1)"

definition MergeIntervalsRecursively ::
  "NumericVector \<Rightarrow> DoublyLinkedList \<Rightarrow> real \<Rightarrow> nat \<Rightarrow> DoublyLinkedList option option" where
  "MergeIntervalsRecursively x links p LSI =
     seq (loop (MergeIntervalsRecursively_fill x links LSI) (0, 0, []))
       (\<lambda>IterList. MergeIntervalsRecursively_while x p links (IterList @ [size_minus_1 x]))"

subsection \<open>\<^verbatim>\<open>pvar\<close>\<close>

text \<open>Lines 288--291: the final walk, on \<open>(pvalue, i)\<close>.\<close>

definition pvar_sum ::
  "NumericVector \<Rightarrow> DoublyLinkedList \<Rightarrow> real \<times> nat \<Rightarrow> (real \<times> nat, real) flow option" where
  "pvar_sum x links s =
     (case s of (pvalue, i) \<Rightarrow>
        if i < length x then
          do {
            pt \<leftarrow> get links i;
            let pvalue = pvalue + pvdiff pt;
            pt \<leftarrow> get links i;
            Some (Continue (pvalue, next pt))
          }
        else Some (Return pvalue))"

text \<open>\<^verbatim>\<open>DoublyLinkedList links(x.size())\<close> value-initialises every element.\<close>

definition new_links :: "nat \<Rightarrow> DoublyLinkedList" where
  "new_links n = replicate n \<lparr>prev = 0, next = 0, pvdiff = 0\<rparr>"

definition pvar :: "NumericVector \<Rightarrow> real \<Rightarrow> real option option" where
  "pvar x p =
     (if length x \<le> 2 then
        if length x \<le> 1 then Some (Some 0)
        else Some (do { x0 \<leftarrow> get x 0; x1 \<leftarrow> get x 1; Some (std_pow \<bar>x0 - x1\<bar> p) })
      else
        seq (Some (DetectLocalExtrema x (new_links (length x)) p))
          (\<lambda>links. seq (CheckShortIntervals x links p)
             (\<lambda>links. seq (MergeIntervalsRecursively x links p 4)
                (\<lambda>links. loop (pvar_sum x links) (0, 0)))))"

subsection \<open>The iterators into \<^verbatim>\<open>IterList\<close>\<close>

text \<open>
  \<open>MergeIntervalsRecursively_pass\<close> and \<open>MergeIntervalsRecursively_while\<close> above follow the
  entries of \<^verbatim>\<open>IterList\<close> that \<^verbatim>\<open>a_IL\<close>, \<^verbatim>\<open>v_IL\<close> and \<^verbatim>\<open>b_IL\<close> point at; they do not
  say whether every operation on the three iterators is defined.  The definitions of this
  subsection follow lines 252--265 with the iterators themselves.  An iterator is a
  position in the list, \<^verbatim>\<open>end()\<close> the length of the list.  \<^verbatim>\<open>++\<close> on \<^verbatim>\<open>end()\<close>, \<^verbatim>\<open>*\<close> on
  \<^verbatim>\<open>end()\<close> and \<^verbatim>\<open>erase\<close> of \<^verbatim>\<open>end()\<close> are undefined behaviour of \<^verbatim>\<open>std::list\<close>: the value
  \<open>None\<close> of the inner \<open>option\<close>, like an access of a vector out of its range.
  \<^verbatim>\<open>erase\<close> returns the iterator to the entry after the erased one, which is the
  position of the erased entry in the shorter list.
\<close>

text \<open>\<^verbatim>\<open>++it\<close>.\<close>

definition IterList_next :: "nat list \<Rightarrow> nat \<Rightarrow> nat option" where
  "IterList_next IterList pos = (if pos < length IterList then Some (pos + 1) else None)"

text \<open>\<^verbatim>\<open>IterList.erase(it)\<close>: the new list and the returned iterator.\<close>

definition IterList_erase :: "nat list \<Rightarrow> nat \<Rightarrow> (nat list \<times> nat) option" where
  "IterList_erase IterList pos =
     (if pos < length IterList then Some (take pos IterList @ drop (pos + 1) IterList, pos)
      else None)"

text \<open>Lines 257--264: the inner \<^verbatim>\<open>while\<close> loop, on \<open>(links, IterList, a_IL, v_IL, b_IL)\<close>.
  Both operands of \<^verbatim>\<open>&\<close> are evaluated; neither has an effect.\<close>

function MergeIntervalsRecursively_inner ::
  "NumericVector \<Rightarrow> real \<Rightarrow> DoublyLinkedList \<Rightarrow> nat list \<Rightarrow> nat \<Rightarrow> nat \<Rightarrow> nat
     \<Rightarrow> (DoublyLinkedList \<times> nat list) option option" where
  "MergeIntervalsRecursively_inner x p links IterList a_IL v_IL b_IL =
     (if b_IL \<noteq> length IterList \<and> v_IL \<noteq> length IterList then
        (case get IterList a_IL of
           None \<Rightarrow> Some None
         | Some a \<Rightarrow>
        (case get IterList v_IL of
           None \<Rightarrow> Some None
         | Some v \<Rightarrow>
        (case get IterList b_IL of
           None \<Rightarrow> Some None
         | Some b \<Rightarrow>
        (case Merge2GoodInt x p links a v b of
           None \<Rightarrow> None
         | Some None \<Rightarrow> Some None
         | Some (Some links') \<Rightarrow>
        (case IterList_erase IterList v_IL of
           None \<Rightarrow> Some None
         | Some (IterList', a_IL') \<Rightarrow>
        (case IterList_next IterList' a_IL' of
           None \<Rightarrow> Some None
         | Some v_IL' \<Rightarrow>
        (case IterList_next IterList' v_IL' of
           None \<Rightarrow> Some None
         | Some b_IL' \<Rightarrow>
             MergeIntervalsRecursively_inner x p links' IterList' a_IL' v_IL' b_IL')))))))
      else Some (Some (links, IterList)))"
  by pat_completeness auto
termination
  by (relation "measure (\<lambda>(x, p, links, IterList, a_IL, v_IL, b_IL). length IterList)")
     (auto simp: IterList_erase_def split: if_splits)

declare MergeIntervalsRecursively_inner.simps [simp del]




section \<open>The stages of \<^verbatim>\<open>pvar\<close>, one step at a time\<close>

text \<open>
  The places at which the links can be observed while \<^verbatim>\<open>pvar\<close> runs on an input of
  length at least 3: at the head of the \<^verbatim>\<open>for\<close> loop of \<^verbatim>\<open>DetectLocalExtrema\<close>, with
  \<open>i\<close> and the loop state; at the head of the \<^verbatim>\<open>while (true)\<close> loop of
  \<^verbatim>\<open>CheckShortIntervals\<close>, with its state; at the start of \<^verbatim>\<open>MergeIntervalsRecursively\<close>;
  before each call of \<^verbatim>\<open>Merge2GoodInt\<close>, with the entries of \<^verbatim>\<open>IterList\<close> before \<^verbatim>\<open>a_IL\<close>
  and from \<^verbatim>\<open>a_IL\<close> on; and at the final walk.
\<close>

datatype config =
    InDetect nat "DoublyLinkedList \<times> nat \<times> int"
  | InScan "DoublyLinkedList \<times> nat \<times> nat \<times> real"
  | InFill DoublyLinkedList
  | InMerge DoublyLinkedList "nat list" "nat list"
  | InSum DoublyLinkedList

fun links_of :: "config \<Rightarrow> DoublyLinkedList" where
  "links_of (InDetect i s) = fst s"
| "links_of (InScan s) = fst s"
| "links_of (InFill links) = links"
| "links_of (InMerge links front rest) = links"
| "links_of (InSum links) = links"

fun in_detect :: "config \<Rightarrow> bool" where
  "in_detect (InDetect i s) = True"
| "in_detect cf = False"

text \<open>The first observation point: the links are allocated and the three assignments
  before the loop of \<^verbatim>\<open>DetectLocalExtrema\<close> are done.\<close>

definition initial :: "NumericVector \<Rightarrow> config option" where
  "initial x =
     do {
       let links = new_links (length x);
       links \<leftarrow> upd links 0 (\<lambda>r. r\<lparr>prev := 0\<rparr>);
       links \<leftarrow> upd links 0 (\<lambda>r. r\<lparr>pvdiff := 0\<rparr>);
       links \<leftarrow> upd links (length links - 1) (\<lambda>r. r\<lparr>next := length x\<rparr>);
       Some (InDetect 0 (links, 0, 0))
     }"

text \<open>The first observation point after \<^verbatim>\<open>DetectLocalExtrema\<close> has returned \<open>links\<close>:
  the first loop of \<^verbatim>\<open>CheckShortIntervals\<close> has run.\<close>

definition start :: "NumericVector \<Rightarrow> DoublyLinkedList \<Rightarrow> config option" where
  "start x links =
     (case repeat 3 (CheckShortIntervals_first x links) (0, 0) of
        None \<Rightarrow> None
      | Some (Return r) \<Rightarrow> Some (InFill r)
      | Some (Continue (int_end, csum)) \<Rightarrow> Some (InScan (links, 0, int_end, csum)))"

text \<open>From one observation point to the next; \<open>None\<close> after the last one, and when the
  code between the two does not return normally.\<close>

fun step :: "NumericVector \<Rightarrow> real \<Rightarrow> config \<Rightarrow> config option" where
  "step x p (InDetect i s) =
     (if i < length x then
        (case DetectLocalExtrema_body x p i s of
           None \<Rightarrow> None
         | Some s' \<Rightarrow> Some (InDetect (i + 1) s'))
      else start x (fst s))"
| "step x p (InScan s) =
     (case CheckShortIntervals_body x p s of
        None \<Rightarrow> None
      | Some (Return r) \<Rightarrow> Some (InFill r)
      | Some (Continue s') \<Rightarrow> Some (InScan s'))"
| "step x p (InFill links) =
     (case loop (MergeIntervalsRecursively_fill x links 4) (0, 0, []) of
        Some (Some IterList) \<Rightarrow> Some (InMerge links [] (IterList @ [size_minus_1 x]))
      | _ \<Rightarrow> None)"
| "step x p (InMerge links front (a # v # b # rest)) =
     (case Merge2GoodInt x p links a v b of
        Some (Some links') \<Rightarrow> Some (InMerge links' (front @ [a]) (b # rest))
      | _ \<Rightarrow> None)"
| "step x p (InMerge links front rest) =
     (if 2 < length (front @ rest) then Some (InMerge links [] (front @ rest))
      else Some (InSum links))"
| "step x p (InSum links) = None"

fun run :: "NumericVector \<Rightarrow> real \<Rightarrow> nat \<Rightarrow> config \<Rightarrow> config option" where
  "run x p 0 c = Some c"
| "run x p (Suc k) c = (case step x p c of None \<Rightarrow> None | Some c' \<Rightarrow> run x p k c')"

text \<open>The observation points that \<^verbatim>\<open>pvar\<close> passes through on the input \<open>x\<close>.\<close>

definition reached :: "NumericVector \<Rightarrow> real \<Rightarrow> config \<Rightarrow> bool" where
  "reached x p cf \<longleftrightarrow> (\<exists>c0 k. initial x = Some c0 \<and> run x p k c0 = Some cf)"

section \<open>The chain of admissible points and the p-variation\<close>

text \<open>The indices that following \<open>next\<close> from \<open>i\<close> visits, as the final walk of
  \<^verbatim>\<open>pvar\<close> does; at most \<open>k\<close> of them.\<close>

fun walk :: "DoublyLinkedList \<Rightarrow> nat \<Rightarrow> nat \<Rightarrow> nat list" where
  "walk links 0 i = []"
| "walk links (Suc k) i =
     (if i < length links then i # walk links k (next (links ! i)) else [])"

definition chain_of :: "DoublyLinkedList \<Rightarrow> nat list" where
  "chain_of links = walk links (length links) 0"

text \<open>\<open>a\<close> and \<open>b\<close> are neighbours in the list: linked both ways, and \<open>b\<close> carries the
  weight of the step from \<open>a\<close>.\<close>

definition edge :: "NumericVector \<Rightarrow> real \<Rightarrow> DoublyLinkedList \<Rightarrow> nat \<Rightarrow> nat \<Rightarrow> bool" where
  "edge x p links a b \<longleftrightarrow>
     a < b \<and> b < length links \<and> next (links ! a) = b \<and> prev (links ! b) = a \<and>
     pvdiff (links ! b) = pvar_diff (x ! a - x ! b) p"

text \<open>\<open>links\<close> holds the chain \<open>c\<close> for the input \<open>x\<close>: a single list from index 0 to
  index \<open>n - 1\<close>, ending at the sentinel \<open>n\<close>, with every stored link in \<open>[0, n]\<close>.\<close>

definition chain :: "NumericVector \<Rightarrow> real \<Rightarrow> DoublyLinkedList \<Rightarrow> nat list \<Rightarrow> bool" where
  "chain x p links c \<longleftrightarrow>
     length links = length x \<and> 0 < length x \<and>
     c \<noteq> [] \<and> hd c = 0 \<and> last c = length x - 1 \<and>
     successively (edge x p links) c \<and>
     next (links ! (length x - 1)) = length x \<and>
     prev (links ! 0) = 0 \<and> pvdiff (links ! 0) = 0 \<and>
     list_all (\<lambda>r. prev r \<le> length x \<and> next r \<le> length x) links"

text \<open>The sum of \<open>|x[i\<^sub>j] - x[i\<^sub>j\<^sub>-\<^sub>1]|^p\<close> along an index sequence.\<close>

fun psum :: "NumericVector \<Rightarrow> real \<Rightarrow> nat list \<Rightarrow> real" where
  "psum x p [] = 0"
| "psum x p [i] = 0"
| "psum x p (i # j # js) = pvar_diff (x ! i - x ! j) p + psum x p (j # js)"

text \<open>The p-variation by exhaustive enumeration of the increasing index sequences.\<close>

definition p_variation :: "NumericVector \<Rightarrow> real \<Rightarrow> real" where
  "p_variation x p = Max (psum x p ` set (subseqs [0..<length x]))"

text \<open>The links after joining \<open>i\<close> directly to \<open>j\<close> with weight \<open>w\<close>.\<close>

definition join :: "DoublyLinkedList \<Rightarrow> nat \<Rightarrow> nat \<Rightarrow> real \<Rightarrow> DoublyLinkedList" where
  "join links i j w =
     (links[i := (links ! i)\<lparr>next := j\<rparr>])
       [j := ((links[i := (links ! i)\<lparr>next := j\<rparr>]) ! j)\<lparr>prev := i, pvdiff := w\<rparr>]"

section \<open>Invariants\<close>

subsection \<open>Local extrema\<close>

text \<open>\<open>zig x up c\<close>: along \<open>c\<close> the values of \<open>x\<close> go strictly up and down in
  turn, starting upwards iff \<open>up\<close>.\<close>

fun zig :: "NumericVector \<Rightarrow> bool \<Rightarrow> nat list \<Rightarrow> bool" where
  "zig x up (a # b # r) \<longleftrightarrow>
     (if up then x ! a < x ! b else x ! b < x ! a) \<and> zig x (\<not> up) (b # r)"
| "zig x up r \<longleftrightarrow> True"

text \<open>A chain of a single edge may be flat (a constant input).\<close>

definition alternating :: "NumericVector \<Rightarrow> nat list \<Rightarrow> bool" where
  "alternating x c \<longleftrightarrow> length c \<le> 2 \<or> zig x True c \<or> zig x False c"

definition zigzag :: "NumericVector \<Rightarrow> nat \<Rightarrow> nat \<Rightarrow> nat \<Rightarrow> bool" where
  "zigzag x a b d \<longleftrightarrow> (x ! a < x ! b \<and> x ! d < x ! b) \<or> (x ! b < x ! a \<and> x ! b < x ! d)"

text \<open>\<open>x\<close> is monotone (ties allowed) on the indices from \<open>s\<close> to \<open>t\<close>.\<close>

definition mono_run :: "NumericVector \<Rightarrow> nat \<Rightarrow> nat \<Rightarrow> bool" where
  "mono_run x s t \<longleftrightarrow>
     (\<forall>i j. s \<le> i \<and> i \<le> j \<and> j \<le> t \<longrightarrow> x ! i \<le> x ! j) \<or>
     (\<forall>i j. s \<le> i \<and> i \<le> j \<and> j \<le> t \<longrightarrow> x ! j \<le> x ! i)"

text \<open>What \<^verbatim>\<open>direction\<close> records before index \<open>i\<close> is processed: the run from
  \<^verbatim>\<open>last_extremum\<close> to \<open>i\<close> is flat, rising or falling, against the step into
  \<^verbatim>\<open>last_extremum\<close>.\<close>

definition direction_info :: "NumericVector \<Rightarrow> nat \<Rightarrow> nat \<Rightarrow> int \<Rightarrow> nat list \<Rightarrow> bool" where
  "direction_info x i last_extremum direction pc \<longleftrightarrow>
     direction = 0 \<and> pc = [0] \<and> (\<forall>j k. j \<le> i \<and> k \<le> i \<longrightarrow> x ! j \<le> x ! k) \<or>
     direction = 1 \<and> x ! last_extremum < x ! i \<and>
       (\<forall>j k. last_extremum \<le> j \<and> j \<le> k \<and> k \<le> i \<longrightarrow> x ! j \<le> x ! k) \<and>
       (\<forall>l a. pc = l @ [a, last_extremum] \<longrightarrow> x ! last_extremum < x ! a) \<or>
     direction = - 1 \<and> x ! i < x ! last_extremum \<and>
       (\<forall>j k. last_extremum \<le> j \<and> j \<le> k \<and> k \<le> i \<longrightarrow> x ! k \<le> x ! j) \<and>
       (\<forall>l a. pc = l @ [a, last_extremum] \<longrightarrow> x ! a < x ! last_extremum)"

text \<open>The state of the scan of \<^verbatim>\<open>DetectLocalExtrema\<close> before index \<open>i\<close> is processed;
  \<open>pc\<close> is the chain built so far, from 0 to \<^verbatim>\<open>last_extremum\<close>.\<close>

definition detect_inv ::
  "NumericVector \<Rightarrow> real \<Rightarrow> nat \<Rightarrow> DoublyLinkedList \<times> nat \<times> int \<Rightarrow> nat list \<Rightarrow> bool" where
  "detect_inv x p i s pc \<longleftrightarrow>
     (case s of (links, last_extremum, direction) \<Rightarrow>
        length links = length x \<and> i < length x \<and> 2 \<le> length x \<and>
        pc \<noteq> [] \<and> hd pc = 0 \<and> last pc = last_extremum \<and>
        successively (edge x p links) pc \<and>
        (last_extremum < i \<or> i = 0 \<and> last_extremum = 0) \<and>
        next (links ! (length x - 1)) = length x \<and>
        prev (links ! 0) = 0 \<and> pvdiff (links ! 0) = 0 \<and>
        list_all (\<lambda>r. prev r \<le> length x \<and> next r \<le> length x) links \<and>
        successively (mono_run x) pc \<and> alternating x pc \<and>
        direction_info x i last_extremum direction pc)"

text \<open>What \<^verbatim>\<open>DetectLocalExtrema\<close> establishes: a chain of strictly alternating local
  extrema with monotone runs in between.\<close>

definition extrema_chain :: "NumericVector \<Rightarrow> nat list \<Rightarrow> bool" where
  "extrema_chain x c \<longleftrightarrow> alternating x c \<and> successively (mono_run x) c"

subsection \<open>Windows of the short-interval scan\<close>

text \<open>
  The chain is split as \<open>c1 @ w @ c2\<close>, with \<open>w\<close> the current window from
  \<^verbatim>\<open>int_begin\<close> to \<^verbatim>\<open>int_end\<close>.  \<open>widen k\<close> is what \<open>k\<close> iterations of the backtracking
  loop do to the window: it grows to the left while there is a node before it, then to
  the right; \<open>None\<close> when the right end of the chain is reached first.
\<close>

fun widen :: "nat \<Rightarrow> nat list \<Rightarrow> nat list \<Rightarrow> nat list \<Rightarrow> (nat list \<times> nat list \<times> nat list) option" where
  "widen 0 c1 w c2 = Some (c1, w, c2)"
| "widen (Suc k) c1 w c2 =
     (if c1 \<noteq> [] then widen k (butlast c1) (last c1 # w) c2
      else if c2 = [] then None
      else widen k c1 (w @ [hd c2]) (tl c2))"

text \<open>The state \<open>(links, int_begin, int_end, csum)\<close> of the scan for the window \<open>w\<close>.\<close>

definition scan_state ::
  "NumericVector \<Rightarrow> real \<Rightarrow> DoublyLinkedList \<Rightarrow> nat list \<times> nat list \<times> nat list
     \<Rightarrow> DoublyLinkedList \<times> nat \<times> nat \<times> real" where
  "scan_state x p links g = (case g of (c1, w, c2) \<Rightarrow> (links, hd w, last w, psum x p w))"

definition window ::
  "NumericVector \<Rightarrow> real \<Rightarrow> DoublyLinkedList \<Rightarrow> nat list \<times> nat list \<times> nat list \<Rightarrow> bool" where
  "window x p links g \<longleftrightarrow> (case g of (c1, w, c2) \<Rightarrow> chain x p links (c1 @ w @ c2) \<and> w \<noteq> [])"

text \<open>The result of a \<^verbatim>\<open>for\<close> loop of the scan that ends in the split \<open>r\<close>, or returns.\<close>

definition scan_flow ::
  "NumericVector \<Rightarrow> real \<Rightarrow> DoublyLinkedList \<Rightarrow> (nat list \<times> nat list \<times> nat list) option
     \<Rightarrow> (DoublyLinkedList \<times> nat \<times> nat \<times> real, DoublyLinkedList) flow option" where
  "scan_flow x p links r =
     (case r of None \<Rightarrow> Some (Return links) | Some g \<Rightarrow> Some (Continue (scan_state x p links g)))"

subsection \<open>Candidate join points\<close>

text \<open>
  The two walks of \<^verbatim>\<open>Merge2GoodInt\<close> as a function of the nodes they visit: from the
  node \<open>u\<close> through \<open>qs\<close>, with the weight \<open>e\<close> accumulated since \<open>v\<close> and the
  running minimum \<open>mn\<close> and maximum \<open>mx\<close>; the result is the pair of the new minima and
  the new maxima.
\<close>

fun extremes ::
  "NumericVector \<Rightarrow> real \<Rightarrow> nat \<Rightarrow> nat list \<Rightarrow> real \<Rightarrow> real \<Rightarrow> real
     \<Rightarrow> pvtemppoint list \<Rightarrow> pvtemppoint list \<Rightarrow> pvtemppoint list \<times> pvtemppoint list" where
  "extremes x p u [] e mn mx mins maxs = (mins, maxs)"
| "extremes x p u (q # qs) e mn mx mins maxs =
     extremes x p q qs (e + pvar_diff (x ! u - x ! q) p)
       (if x ! q < mn then x ! q else mn) (if mx < x ! q then x ! q else mx)
       (if x ! q < mn then mins @ [\<lparr>it = q, ev = e + pvar_diff (x ! u - x ! q) p\<rparr>] else mins)
       (if mx < x ! q then maxs @ [\<lparr>it = q, ev = e + pvar_diff (x ! u - x ! q) p\<rparr>] else maxs)"

text \<open>The gain of the joint from \<open>a\<close> to \<open>b\<close> over the path between them.\<close>

definition balance :: "NumericVector \<Rightarrow> real \<Rightarrow> pvtemppoint \<Rightarrow> pvtemppoint \<Rightarrow> real" where
  "balance x p a b = pvar_diff (x ! it a - x ! it b) p - ev b - ev a"

text \<open>The condition under which the search may start each inner scan at \<^verbatim>\<open>sbit\<close>:
  moving to a later left candidate never favours an earlier right candidate.\<close>

definition monge :: "NumericVector \<Rightarrow> real \<Rightarrow> pvtemppoint list \<Rightarrow> pvtemppoint list \<Rightarrow> bool" where
  "monge x p as bs \<longleftrightarrow>
     sorted_wrt (\<lambda>a a'. \<forall>k l. k < l \<and> l < length bs \<longrightarrow>
        pvar_diff (x ! it a - x ! it (bs ! l)) p + pvar_diff (x ! it a' - x ! it (bs ! k)) p
          \<le> pvar_diff (x ! it a - x ! it (bs ! k)) p + pvar_diff (x ! it a' - x ! it (bs ! l)) p) as"

text \<open>The candidates on one side of \<open>v\<close>: the new running minima and the new running
  maxima among the nodes \<open>qs\<close>, walking away from \<open>v\<close>.\<close>

definition candidates ::
  "NumericVector \<Rightarrow> real \<Rightarrow> nat \<Rightarrow> nat list \<Rightarrow> pvtemppoint list \<times> pvtemppoint list" where
  "candidates x p v qs = extremes x p v qs 0 (x ! v) (x ! v) [] []"

text \<open>The pairs the search looks at, for the interval \<open>left @ [v]\<close> followed by
  \<open>v # right\<close>: a minimum on the left with a maximum on the right, or a maximum on the
  left with a minimum on the right.\<close>

definition cand_pair ::
  "NumericVector \<Rightarrow> real \<Rightarrow> nat list \<Rightarrow> nat \<Rightarrow> nat list \<Rightarrow> pvtemppoint \<Rightarrow> pvtemppoint \<Rightarrow> bool" where
  "cand_pair x p left v right a b \<longleftrightarrow>
     a \<in> set (fst (candidates x p v (rev left))) \<and> b \<in> set (snd (candidates x p v right)) \<or>
     a \<in> set (snd (candidates x p v (rev left))) \<and> b \<in> set (fst (candidates x p v right))"

definition cand_monge :: "NumericVector \<Rightarrow> real \<Rightarrow> nat list \<Rightarrow> nat \<Rightarrow> nat list \<Rightarrow> bool" where
  "cand_monge x p left v right \<longleftrightarrow>
     monge x p (fst (candidates x p v (rev left))) (snd (candidates x p v right)) \<and>
     monge x p (snd (candidates x p v (rev left))) (fst (candidates x p v right))"

text \<open>
  What \<^verbatim>\<open>Merge2GoodInt\<close> does to the chain \<open>c1 @ left @ [v] @ right @ c2\<close> when called with
  the first node of \<open>left\<close>, \<open>v\<close> and the last node of \<open>right\<close>: nothing, or it cuts out
  the nodes between the two ends of the best candidate pair.
\<close>

definition merged ::
  "NumericVector \<Rightarrow> real \<Rightarrow> nat list \<Rightarrow> nat list \<Rightarrow> nat \<Rightarrow> nat list \<Rightarrow> nat list \<Rightarrow> nat list \<Rightarrow> bool" where
  "merged x p c1 left v right c2 c' \<longleftrightarrow>
     c' = c1 @ left @ [v] @ right @ c2 \<and>
       (cand_monge x p left v right \<longrightarrow>
          (\<forall>a b. cand_pair x p left v right a b \<longrightarrow> balance x p a b \<le> 0)) \<or>
     (\<exists>ta tb l1 l2 r1 r2.
        cand_pair x p left v right ta tb \<and> 0 < balance x p ta tb \<and>
        left = l1 @ it ta # l2 \<and> right = r1 @ it tb # r2 \<and>
        c' = c1 @ l1 @ [it ta, it tb] @ r2 @ c2 \<and>
        (cand_monge x p left v right \<longrightarrow>
           (\<forall>a b. cand_pair x p left v right a b \<longrightarrow> balance x p a b \<le> balance x p ta tb)))"

subsection \<open>Interval boundaries\<close>

text \<open>The entries that the first loop of \<^verbatim>\<open>MergeIntervalsRecursively\<close> puts into
  \<^verbatim>\<open>IterList\<close> while it walks the nodes \<open>qs\<close>, counting from \<open>count\<close>.\<close>

fun marks :: "nat \<Rightarrow> nat \<Rightarrow> nat list \<Rightarrow> nat list" where
  "marks LSI count [] = []"
| "marks LSI count (q # qs) = (if count mod LSI = 0 then [q] else []) @ marks LSI (count + 1) qs"

text \<open>\<open>il\<close> is a list of boundaries for the chain \<open>c\<close>: nodes of the chain from its first
  to its last, increasing, where only the last entry may repeat its predecessor.\<close>

definition bounds :: "nat list \<Rightarrow> nat list \<Rightarrow> bool" where
  "bounds c il \<longleftrightarrow>
     il \<noteq> [] \<and> hd il = hd c \<and> last il = last c \<and> set il \<subseteq> set c \<and>
     sorted il \<and> distinct (butlast il)"

subsection \<open>What holds at every observation point\<close>

fun config_inv :: "NumericVector \<Rightarrow> real \<Rightarrow> config \<Rightarrow> bool" where
  "config_inv x p (InDetect i s) \<longleftrightarrow>
     (if i < length x then \<exists>pc. detect_inv x p i s pc else \<exists>c. chain x p (fst s) c)"
| "config_inv x p (InScan s) \<longleftrightarrow>
     (\<exists>g. window x p (fst s) g \<and> length (fst (snd g)) = 4 \<and> s = scan_state x p (fst s) g)"
| "config_inv x p (InFill links) \<longleftrightarrow> (\<exists>c. chain x p links c)"
| "config_inv x p (InMerge links front rest) \<longleftrightarrow> (\<exists>c. chain x p links c \<and> bounds c (front @ rest))"
| "config_inv x p (InSum links) \<longleftrightarrow> (\<exists>c. chain x p links c)"

section \<open>Basic facts\<close>

lemma get_Some [simp]: "i < length xs \<Longrightarrow> get xs i = Some (xs ! i)"
  by (simp add: get_def)

lemma get_None [simp]: "\<not> i < length xs \<Longrightarrow> get xs i = None"
  by (simp add: get_def)

lemma upd_Some [simp]: "i < length xs \<Longrightarrow> upd xs i f = Some (xs[i := f (xs ! i)])"
  by (simp add: upd_def)

lemma upd_None [simp]: "\<not> i < length xs \<Longrightarrow> upd xs i f = None"
  by (simp add: upd_def)

lemma pvar_diff_minus: "pvar_diff (a - b) p = pvar_diff (b - a) p"
  by (simp add: pvar_diff_def abs_minus_commute)

lemma pvar_diff_nonneg: "0 \<le> pvar_diff d p"
  by (simp add: pvar_diff_def std_pow_def)

lemma edge_less: "edge x p links a b \<Longrightarrow> a < b"
  by (simp add: edge_def)

lemma successively_edge_sorted:
  "successively (edge x p links) c \<Longrightarrow> sorted_wrt (<) c"
proof -
  assume a: "successively (edge x p links) c"
  have "successively (<) c"
    by (rule successively_mono [OF a]) (simp add: edge_less)
  then show ?thesis
    by (simp add: successively_conv_sorted_wrt)
qed

lemma successively_edge_bound:
  "successively (edge x p links) c \<Longrightarrow> i \<in> set (tl c) \<Longrightarrow> i < length links"
  by (induction "edge x p links" c rule: successively.induct) (auto simp: edge_def)

lemma chain_sorted: "chain x p links c \<Longrightarrow> sorted_wrt (<) c"
  unfolding chain_def by (blast intro: successively_edge_sorted)

lemma chain_bound: "chain x p links c \<Longrightarrow> i \<in> set c \<Longrightarrow> i < length x"
proof -
  assume c: "chain x p links c" and i: "i \<in> set c"
  then obtain c' where c': "c = 0 # c'"
    by (cases c) (auto simp: chain_def)
  with i have "i = 0 \<or> i \<in> set (tl c)" by auto
  with c successively_edge_bound [of x p links c i] show ?thesis
    by (auto simp: chain_def)
qed

lemma walk_chain:
  "successively (edge x p links) c \<Longrightarrow> c \<noteq> [] \<Longrightarrow> hd c < length links \<Longrightarrow>
   \<not> next (links ! last c) < length links \<Longrightarrow> length c \<le> k \<Longrightarrow> walk links k (hd c) = c"
proof (induction c arbitrary: k)
  case Nil
  then show ?case by simp
next
  case (Cons a c)
  then obtain k' where k: "k = Suc k'" by (cases k) auto
  show ?case
  proof (cases c)
    case Nil
    with Cons.prems k show ?thesis by (cases k') auto
  next
    case (Cons b c')
    with Cons.prems have e: "edge x p links a b" by simp
    then have "walk links k' (hd c) = c"
      using Cons.prems Cons.IH [of k'] Cons k by (auto simp: edge_def)
    with e Cons Cons.prems k show ?thesis by (auto simp: edge_def)
  qed
qed

lemma chain_of_chain: "chain x p links c \<Longrightarrow> chain_of links = c"
proof -
  assume c: "chain x p links c"
  then have s: "sorted_wrt (<) c" by (rule chain_sorted)
  then have "distinct c" by (simp add: strict_sorted_iff [symmetric] sorted_wrt_iff_nth_less distinct_conv_nth) (metis less_not_refl linorder_neqE_nat)
  then have "card (set c) = length c" by (rule distinct_card)
  moreover have "set c \<subseteq> {..<length x}" using chain_bound [OF c] by auto
  then have "card (set c) \<le> length x"
    by (metis card_lessThan card_mono finite_lessThan)
  ultimately have "length c \<le> length links" using c by (simp add: chain_def)
  with c show ?thesis
    unfolding chain_of_def
    using walk_chain [of x p links c "length links"] by (auto simp: chain_def)
qed

subsection \<open>Alternation\<close>

lemma zig_snoc:
  "zig x up (l @ [a, b]) \<Longrightarrow> zigzag x a b i \<Longrightarrow> zig x up (l @ [a, b, i])"
proof (induction l arbitrary: up)
  case Nil
  then show ?case by (auto simp: zigzag_def split: if_splits)
next
  case (Cons q l)
  from Cons.prems have "zig x (\<not> up) (l @ [a, b])" by (cases l) auto
  from Cons.IH [OF this Cons.prems(2)] Cons.prems(1) show ?case by (cases l) auto
qed

lemma zig_triple:
  "zig x up (pre @ a # b # d # post) \<Longrightarrow> zigzag x a b d"
proof (induction pre arbitrary: up)
  case Nil
  then show ?case by (auto simp: zigzag_def split: if_splits)
next
  case (Cons q l)
  from Cons.prems have "zig x (\<not> up) (l @ a # b # d # post)" by (cases l) auto
  from Cons.IH [OF this] show ?case .
qed

lemma alternating_snoc:
  assumes "alternating x (l @ [a, b])" "zigzag x a b i"
  shows "alternating x (l @ [a, b, i])"
proof (cases "zig x True (l @ [a, b]) \<or> zig x False (l @ [a, b])")
  case True
  with assms(2) show ?thesis
    unfolding alternating_def using zig_snoc by blast
next
  case False
  with assms(1) have "l = []" by (simp add: alternating_def)
  with assms(2) show ?thesis by (auto simp: alternating_def zigzag_def)
qed

lemma alternating_short: "length c \<le> 2 \<Longrightarrow> alternating x c"
  by (simp add: alternating_def)

lemma alternating_triple:
  assumes "alternating x (pre @ a # b # d # post)"
  shows "zigzag x a b d"
  using assms zig_triple unfolding alternating_def by auto

subsection \<open>Joining two nodes\<close>

lemma length_join [simp]: "length (join links i j w) = length links"
  by (simp add: join_def)

lemma join_nth_other:
  "k \<noteq> i \<Longrightarrow> k \<noteq> j \<Longrightarrow> join links i j w ! k = links ! k"
  by (simp add: join_def)

lemma join_nth_left:
  "i \<noteq> j \<Longrightarrow> i < length links \<Longrightarrow> join links i j w ! i = (links ! i)\<lparr>next := j\<rparr>"
  by (simp add: join_def)

lemma join_nth_right:
  "i \<noteq> j \<Longrightarrow> j < length links \<Longrightarrow>
   join links i j w ! j = (links ! j)\<lparr>prev := i, pvdiff := w\<rparr>"
  by (simp add: join_def)

lemma link3:
  "i < length links \<Longrightarrow> j < length links \<Longrightarrow>
   do {
     l \<leftarrow> upd links i (\<lambda>r. r\<lparr>next := j\<rparr>);
     l \<leftarrow> upd l j (\<lambda>r. r\<lparr>prev := i\<rparr>);
     upd l j (\<lambda>r. r\<lparr>pvdiff := w\<rparr>)
   } = Some (join links i j w)"
  by (simp add: join_def)

lemma join_next:
  "k \<noteq> i \<Longrightarrow> next (join links i j w ! k) = next (links ! k)"
proof (cases "j < length links")
  case True
  assume "k \<noteq> i"
  with True show ?thesis by (cases "k = j") (simp_all add: join_def)
next
  case False
  assume "k \<noteq> i"
  with False show ?thesis by (simp add: join_def list_update_beyond)
qed

lemma join_prev_pvdiff:
  assumes "k \<noteq> j"
  shows "prev (join links i j w ! k) = prev (links ! k)"
    and "pvdiff (join links i j w ! k) = pvdiff (links ! k)"
proof -
  have "prev (join links i j w ! k) = prev (links ! k) \<and>
        pvdiff (join links i j w ! k) = pvdiff (links ! k)"
  proof (cases "i < length links")
    case True
    with assms show ?thesis by (cases "k = i") (simp_all add: join_def)
  next
    case False
    with assms show ?thesis by (simp add: join_def list_update_beyond)
  qed
  then show "prev (join links i j w ! k) = prev (links ! k)"
    and "pvdiff (join links i j w ! k) = pvdiff (links ! k)" by simp_all
qed

lemma edge_join_other:
  assumes "edge x p links u v" "u \<noteq> i" "v \<noteq> j"
  shows "edge x p (join links i j w) u v"
  using assms by (simp add: edge_def join_next join_prev_pvdiff)

lemma edge_join_new:
  "i < j \<Longrightarrow> j < length links \<Longrightarrow> w = pvar_diff (x ! i - x ! j) p \<Longrightarrow>
   edge x p (join links i j w) i j"
  by (simp add: edge_def join_nth_left join_nth_right)

lemma join_keeps:
  assumes "i < j"
  shows "prev (join links i j w ! 0) = prev (links ! 0)"
    and "pvdiff (join links i j w ! 0) = pvdiff (links ! 0)"
    and "j < length links \<Longrightarrow>
         next (join links i j w ! (length links - 1)) = next (links ! (length links - 1))"
  using assms by (simp_all add: join_next join_prev_pvdiff)

lemma join_bounds:
  assumes "list_all (\<lambda>r. prev r \<le> n \<and> next r \<le> n) links" "i \<le> n" "j \<le> n"
  shows "list_all (\<lambda>r. prev r \<le> n \<and> next r \<le> n) (join links i j w)"
proof -
  have "prev (join links i j w ! k) \<le> n \<and> next (join links i j w ! k) \<le> n"
    if k: "k < length links" for k
  proof -
    from assms(1) k have l: "prev (links ! k) \<le> n" "next (links ! k) \<le> n"
      by (simp_all add: list_all_length)
    have "prev (join links i j w ! k) \<le> n"
    proof (cases "k = j")
      case True
      with k assms(2) l show ?thesis by (cases "i = j") (simp_all add: join_def)
    next
      case False
      with l show ?thesis by (simp add: join_prev_pvdiff)
    qed
    moreover have "next (join links i j w ! k) \<le> n"
    proof (cases "k = i")
      case True
      with k assms(3) l show ?thesis by (cases "i = j") (simp_all add: join_def)
    next
      case False
      with l show ?thesis by (simp add: join_next)
    qed
    ultimately show ?thesis by simp
  qed
  then show ?thesis by (simp add: list_all_length)
qed

lemma successively_edge_join:
  assumes "successively (edge x p links) c" "i \<notin> set (butlast c)" "j \<notin> set (tl c)"
  shows "successively (edge x p (join links i j w)) c"
  using assms
proof (induction "edge x p links" c rule: successively.induct)
  case (3 u v r)
  then have "edge x p (join links i j w) u v"
    by (intro edge_join_other) auto
  with 3 show ?case by auto
qed auto


subsection \<open>Strictly increasing lists\<close>

lemma sorted_wrt_less_butlast:
  "sorted_wrt (<) (c::nat list) \<Longrightarrow> a \<in> set (butlast c) \<Longrightarrow> a < last c"
  by (induction c) (auto split: if_splits)

lemma sorted_wrt_less_tl:
  "sorted_wrt (<) (c::nat list) \<Longrightarrow> a \<in> set (tl c) \<Longrightarrow> hd c < a"
  by (cases c) auto

lemma sorted_wrt_le_last:
  "sorted_wrt (<) (c::nat list) \<Longrightarrow> a \<in> set c \<Longrightarrow> a \<le> last c"
proof (induction c)
  case (Cons b c)
  show ?case
  proof (cases "c = []")
    case False
    then have "last c \<in> set c" by simp
    with Cons False show ?thesis by (auto intro: less_imp_le)
  qed (use Cons in simp)
qed simp

lemma sorted_wrt_hd_le:
  "sorted_wrt (<) (c::nat list) \<Longrightarrow> a \<in> set c \<Longrightarrow> hd c \<le> a"
  by (cases c) auto

subsection \<open>\<^verbatim>\<open>DetectLocalExtrema\<close>\<close>

lemma detect_link:
  assumes len: "length links = length x" and i: "i < length x"
    and pc: "pc \<noteq> []" "last pc = le" "successively (edge x p links) pc"
    and le: "le < i"
  shows "successively (edge x p (join links le i (pvar_diff (x ! i - x ! le) p))) (pc @ [i])"
proof -
  let ?L = "join links le i (pvar_diff (x ! i - x ! le) p)"
  have s: "sorted_wrt (<) pc" using pc(3) by (rule successively_edge_sorted)
  have "le \<notin> set (butlast pc)"
    using sorted_wrt_less_butlast [OF s, of le] pc(2) by auto
  moreover have "i \<notin> set (tl pc)"
  proof
    assume "i \<in> set (tl pc)"
    then have "i \<in> set pc" by (rule list.set_sel(2) [rotated]) (use pc in simp)
    with sorted_wrt_le_last [OF s, of i] pc(2) le show False by simp
  qed
  ultimately have 1: "successively (edge x p ?L) pc"
    using pc(3) by (intro successively_edge_join)
  have "edge x p ?L le i"
    using le i len by (intro edge_join_new) (simp_all add: pvar_diff_minus)
  then have 2: "edge x p ?L (last pc) i" using pc(2) by simp
  from 1 2 pc(1) show ?thesis
    by (simp add: successively_append_iff)
qed


lemma detect_invD:
  assumes "detect_inv x p i (links, le, dir) pc"
  shows "length links = length x" "i < length x" "2 \<le> length x"
    "pc \<noteq> []" "hd pc = 0" "last pc = le" "successively (edge x p links) pc"
    "le < i \<or> i = 0 \<and> le = 0"
    "next (links ! (length x - 1)) = length x"
    "prev (links ! 0) = 0" "pvdiff (links ! 0) = 0"
    "list_all (\<lambda>r. prev r \<le> length x \<and> next r \<le> length x) links"
    "successively (mono_run x) pc" "alternating x pc"
    "direction_info x i le dir pc"
  using assms by (simp_all add: detect_inv_def direction_info_def)


lemma detect_body_link:
  assumes "length links = length x" "i < length x" "le < i"
    and "i + 1 = length x \<or>
         (x ! i < x ! (i + 1) \<and> dir = - 1) \<or> (x ! (i + 1) < x ! i \<and> dir = 1)"
  shows "DetectLocalExtrema_body x p i (links, le, dir) =
     Some (join links le i (pvar_diff (x ! i - x ! le) p), i,
           if i + 1 = length x then dir else - dir)"
  using assms
  by (auto simp: DetectLocalExtrema_body_def Let_def join_def)

lemma detect_body_keep:
  assumes "i + 1 < length x"
    and "\<not> (x ! i < x ! (i + 1) \<and> dir = - 1)" "\<not> (x ! (i + 1) < x ! i \<and> dir = 1)"
  shows "DetectLocalExtrema_body x p i (links, le, dir) =
     Some (links, le,
           if x ! i < x ! (i + 1) then 1 else if x ! (i + 1) < x ! i then - 1 else dir)"
  using assms
  by (auto simp: DetectLocalExtrema_body_def Let_def)

lemma detect_append:
  assumes inv: "detect_inv x p i (links, le, dir) pc"
    and le: "le < i"
    and zz: "\<And>l a. pc = l @ [a, le] \<Longrightarrow> zigzag x a le i"
    and run: "mono_run x le i"
  defines "L \<equiv> join links le i (pvar_diff (x ! i - x ! le) p)"
  shows "length L = length x" "hd (pc @ [i]) = 0" "last (pc @ [i]) = i"
    "successively (edge x p L) (pc @ [i])"
    "next (L ! (length x - 1)) = length x"
    "prev (L ! 0) = 0" "pvdiff (L ! 0) = 0"
    "list_all (\<lambda>r. prev r \<le> length x \<and> next r \<le> length x) L"
    "successively (mono_run x) (pc @ [i])" "alternating x (pc @ [i])"
proof -
  note d = detect_invD [OF inv]
  show "length L = length x" using d(1) by (simp add: L_def)
  show "hd (pc @ [i]) = 0" using d(4,5) by simp
  show "last (pc @ [i]) = i" by simp
  show "successively (edge x p L) (pc @ [i])"
    unfolding L_def using d(1,2,4,6,7) le by (intro detect_link)
  have i: "i < length links" using d(1,2) by simp
  show "next (L ! (length x - 1)) = length x"
    using join_keeps(3) [OF le i] d(1,9) by (simp add: L_def)
  show "prev (L ! 0) = 0" "pvdiff (L ! 0) = 0"
    using join_keeps(1,2) [OF le] d(10,11) by (simp_all add: L_def)
  show "list_all (\<lambda>r. prev r \<le> length x \<and> next r \<le> length x) L"
    unfolding L_def using d(12) d(2) le by (intro join_bounds) simp_all
  show "successively (mono_run x) (pc @ [i])"
    using d(13) d(6) run by (simp add: successively_append_iff)
  show "alternating x (pc @ [i])"
  proof (cases "length pc \<le> 1")
    case True
    then show ?thesis by (simp add: alternating_short)
  next
    case False
    then obtain l a b where pc: "pc = l @ [a, b]"
      by (metis append_butlast_last_id append_Cons append_Nil append_assoc
          length_0_conv length_butlast less_one linorder_not_le nat_less_le
          zero_less_diff)
    with d(6) have b: "b = le" by simp
    with pc zz have "zigzag x a b i" by simp
    with d(14) pc show ?thesis using alternating_snoc by fastforce
  qed
qed


lemma detect_step_keep:
  assumes inv: "detect_inv x p i (links, le, dir) pc"
    and i: "i + 1 < length x"
    and no: "\<not> (x ! i < x ! (i + 1) \<and> dir = - 1)" "\<not> (x ! (i + 1) < x ! i \<and> dir = 1)"
  defines "dir' \<equiv> (if x ! i < x ! (i + 1) then 1 else if x ! (i + 1) < x ! i then - 1 else dir)"
  shows "detect_inv x p (i + 1) (links, le, dir') pc"
proof -
  note d = detect_invD [OF inv]
  have le: "le \<le> i" using d(8) by auto
  have "direction_info x (i + 1) le dir' pc"
  proof -
    consider (flat) "dir = 0" "pc = [0]" "\<forall>j k. j \<le> i \<and> k \<le> i \<longrightarrow> x ! j \<le> x ! k"
      | (up) "dir = 1" "x ! le < x ! i"
          "\<forall>j k. le \<le> j \<and> j \<le> k \<and> k \<le> i \<longrightarrow> x ! j \<le> x ! k"
          "\<forall>l a. pc = l @ [a, le] \<longrightarrow> x ! le < x ! a"
      | (down) "dir = - 1" "x ! i < x ! le"
          "\<forall>j k. le \<le> j \<and> j \<le> k \<and> k \<le> i \<longrightarrow> x ! k \<le> x ! j"
          "\<forall>l a. pc = l @ [a, le] \<longrightarrow> x ! a < x ! le"
      using d(15) unfolding direction_info_def by blast
    then show ?thesis
    proof cases
      case flat
      from flat(2) d(6) have le0: "le = 0" by simp
      have eq2: "x ! j = x ! k" if "j \<le> i" "k \<le> i" for j k
      proof -
        from flat(3) that have "x ! j \<le> x ! k" "x ! k \<le> x ! j" by blast+
        then show ?thesis by simp
      qed
      show ?thesis
      proof (cases "x ! i < x ! (i + 1)")
        case True
        have "x ! j \<le> x ! k" if jk: "j \<le> k" "k \<le> i + 1" for j k
        proof -
          consider "k \<le> i" | "k = i + 1" "j \<le> i" | "k = i + 1" "j = i + 1"
            using jk by linarith
          then show ?thesis
          proof cases
            case 1
            with jk eq2 [of j k] show ?thesis by simp
          next
            case 2
            with eq2 [of j i] True show ?thesis by simp
          next
            case 3
            then show ?thesis by simp
          qed
        qed
        moreover have "x ! 0 < x ! (i + 1)" using eq2 [of 0 i] True by simp
        ultimately have "dir' = 1 \<and> x ! le < x ! (i + 1) \<and>
           (\<forall>j k. le \<le> j \<and> j \<le> k \<and> k \<le> i + 1 \<longrightarrow> x ! j \<le> x ! k) \<and>
           (\<forall>l a. pc = l @ [a, le] \<longrightarrow> x ! le < x ! a)"
          using True le0 flat(2) by (simp add: dir'_def)
        then show ?thesis unfolding direction_info_def by blast
      next
        case False
        note nup = this
        show ?thesis
        proof (cases "x ! (i + 1) < x ! i")
          case True
          have "x ! k \<le> x ! j" if jk: "j \<le> k" "k \<le> i + 1" for j k
          proof -
            consider "k \<le> i" | "k = i + 1" "j \<le> i" | "k = i + 1" "j = i + 1"
              using jk by linarith
            then show ?thesis
            proof cases
              case 1
              with jk eq2 [of j k] show ?thesis by simp
            next
              case 2
              with eq2 [of j i] True show ?thesis by simp
            next
              case 3
              then show ?thesis by simp
            qed
          qed
          moreover have "x ! (i + 1) < x ! 0" using eq2 [of 0 i] True by simp
          ultimately have "dir' = - 1 \<and> x ! (i + 1) < x ! le \<and>
             (\<forall>j k. le \<le> j \<and> j \<le> k \<and> k \<le> i + 1 \<longrightarrow> x ! k \<le> x ! j) \<and>
             (\<forall>l a. pc = l @ [a, le] \<longrightarrow> x ! a < x ! le)"
            using True nup le0 flat(2) by (simp add: dir'_def)
          then show ?thesis unfolding direction_info_def by blast
        next
          case False
          with nup have e: "x ! (i + 1) = x ! i" by simp
          have "x ! j \<le> x ! k" if "j \<le> i + 1" "k \<le> i + 1" for j k
          proof -
            have "x ! m = x ! i" if "m \<le> i + 1" for m
            proof (cases "m \<le> i")
              case True
              then show ?thesis using eq2 [of m i] by simp
            next
              case False
              with that have "m = i + 1" by simp
              with e show ?thesis by simp
            qed
            from this [of j] this [of k] that show ?thesis by simp
          qed
          then have "\<forall>j k. j \<le> i + 1 \<and> k \<le> i + 1 \<longrightarrow> x ! j \<le> x ! k" by blast
          moreover have "dir' = 0" using False nup flat(1) by (simp add: dir'_def)
          ultimately have "dir' = 0 \<and> pc = [0] \<and>
              (\<forall>j k. j \<le> i + 1 \<and> k \<le> i + 1 \<longrightarrow> x ! j \<le> x ! k)"
            using flat(2) by blast
          then show ?thesis unfolding direction_info_def by blast
        qed
      qed
    next
      case up
      with no have ge: "x ! i \<le> x ! (i + 1)" by simp
      have "x ! j \<le> x ! k" if "le \<le> j" "j \<le> k" "k \<le> i + 1" for j k
      proof (cases "k = i + 1")
        case True
        show ?thesis
        proof (cases "j = i + 1")
          case False
          with that have "x ! j \<le> x ! i" using up(3) by simp
          with ge True show ?thesis by simp
        qed (use True in simp)
      next
        case False
        with that up(3) show ?thesis by simp
      qed
      moreover have "x ! le < x ! (i + 1)" using up(2) ge by simp
      moreover have "dir' = 1" using up(1) ge by (simp add: dir'_def)
      ultimately have "dir' = 1 \<and> x ! le < x ! (i + 1) \<and>
           (\<forall>j k. le \<le> j \<and> j \<le> k \<and> k \<le> i + 1 \<longrightarrow> x ! j \<le> x ! k) \<and>
           (\<forall>l a. pc = l @ [a, le] \<longrightarrow> x ! le < x ! a)"
        using up(4) by blast
      then show ?thesis unfolding direction_info_def by blast
    next
      case down
      with no have ge: "x ! (i + 1) \<le> x ! i" by simp
      have "x ! k \<le> x ! j" if "le \<le> j" "j \<le> k" "k \<le> i + 1" for j k
      proof (cases "k = i + 1")
        case True
        show ?thesis
        proof (cases "j = i + 1")
          case False
          with that have "x ! i \<le> x ! j" using down(3) by simp
          with ge True show ?thesis by simp
        qed (use True in simp)
      next
        case False
        with that down(3) show ?thesis by simp
      qed
      moreover have "x ! (i + 1) < x ! le" using down(2) ge by simp
      moreover have "dir' = - 1" using down(1) ge by (simp add: dir'_def)
      ultimately have "dir' = - 1 \<and> x ! (i + 1) < x ! le \<and>
           (\<forall>j k. le \<le> j \<and> j \<le> k \<and> k \<le> i + 1 \<longrightarrow> x ! k \<le> x ! j) \<and>
           (\<forall>l a. pc = l @ [a, le] \<longrightarrow> x ! a < x ! le)"
        using down(4) by blast
      then show ?thesis unfolding direction_info_def by blast
    qed
  qed
  with d(1,3-7,9-14) i le show ?thesis
    unfolding detect_inv_def by simp
qed


lemma mono_run_up:
  "(\<And>j k. s \<le> j \<Longrightarrow> j \<le> k \<Longrightarrow> k \<le> t \<Longrightarrow> x ! j \<le> x ! k) \<Longrightarrow> mono_run x s t"
  unfolding mono_run_def by blast

lemma mono_run_down:
  "(\<And>j k. s \<le> j \<Longrightarrow> j \<le> k \<Longrightarrow> k \<le> t \<Longrightarrow> x ! k \<le> x ! j) \<Longrightarrow> mono_run x s t"
  unfolding mono_run_def by blast

lemma detect_run:
  assumes "direction_info x i le dir pc" "last pc = le" "le \<le> i"
  shows "mono_run x le i"
proof -
  consider (flat) "dir = 0" "pc = [0]" "\<forall>j k. j \<le> i \<and> k \<le> i \<longrightarrow> x ! j \<le> x ! k"
    | (up) "\<forall>j k. le \<le> j \<and> j \<le> k \<and> k \<le> i \<longrightarrow> x ! j \<le> x ! k"
    | (down) "\<forall>j k. le \<le> j \<and> j \<le> k \<and> k \<le> i \<longrightarrow> x ! k \<le> x ! j"
    using assms(1) unfolding direction_info_def by blast
  then show ?thesis
  proof cases
    case flat
    have "x ! j \<le> x ! k" if "j \<le> k" "k \<le> i" for j k
      using flat(3) that by simp
    then show ?thesis by (intro mono_run_up) simp
  next
    case up
    then show ?thesis by (intro mono_run_up) blast
  next
    case down
    then show ?thesis by (intro mono_run_down) blast
  qed
qed

lemma detect_step_link:
  assumes inv: "detect_inv x p i (links, le, dir) pc"
    and i: "i + 1 < length x"
    and new: "(x ! i < x ! (i + 1) \<and> dir = - 1) \<or> (x ! (i + 1) < x ! i \<and> dir = 1)"
  shows "detect_inv x p (i + 1) (join links le i (pvar_diff (x ! i - x ! le) p), i, - dir)
           (pc @ [i])"
proof -
  note d = detect_invD [OF inv]
  from new d(15) have ne: "x ! i \<noteq> x ! le"
    unfolding direction_info_def by auto
  with d(8) have le: "le < i" by auto
  have zz: "zigzag x a le i" if "pc = l @ [a, le]" for l a
    using new d(15) that unfolding direction_info_def zigzag_def by auto
  have run: "mono_run x le i" using detect_run [OF d(15) d(6)] le by simp
  note a = detect_append [OF inv le zz run]
  have "direction_info x (i + 1) i (- dir) (pc @ [i])"
  proof -
    from new show ?thesis
    proof
      assume n: "x ! i < x ! (i + 1) \<and> dir = - 1"
      have "x ! j \<le> x ! k" if "i \<le> j" "j \<le> k" "k \<le> i + 1" for j k
      proof -
        from that consider "j = k" | "j = i" "k = i + 1" by linarith
        then show ?thesis using n by cases simp_all
      qed
      moreover have "x ! i < x ! a" if "pc @ [i] = l @ [a, i]" for l a
      proof -
        from that have "pc = l @ [a]" by (metis append_Cons append_Nil append_assoc butlast_snoc)
        with d(6) have "a = le" by simp
        with n d(15) show ?thesis unfolding direction_info_def by auto
      qed
      ultimately have "- dir = 1 \<and> x ! i < x ! (i + 1) \<and>
           (\<forall>j k. i \<le> j \<and> j \<le> k \<and> k \<le> i + 1 \<longrightarrow> x ! j \<le> x ! k) \<and>
           (\<forall>l a. pc @ [i] = l @ [a, i] \<longrightarrow> x ! i < x ! a)"
        using n by auto
      then show ?thesis unfolding direction_info_def by blast
    next
      assume n: "x ! (i + 1) < x ! i \<and> dir = 1"
      have "x ! k \<le> x ! j" if "i \<le> j" "j \<le> k" "k \<le> i + 1" for j k
      proof -
        from that consider "j = k" | "j = i" "k = i + 1" by linarith
        then show ?thesis using n by cases simp_all
      qed
      moreover have "x ! a < x ! i" if "pc @ [i] = l @ [a, i]" for l a
      proof -
        from that have "pc = l @ [a]" by (metis append_Cons append_Nil append_assoc butlast_snoc)
        with d(6) have "a = le" by simp
        with n d(15) show ?thesis unfolding direction_info_def by auto
      qed
      ultimately have "- dir = - 1 \<and> x ! (i + 1) < x ! i \<and>
           (\<forall>j k. i \<le> j \<and> j \<le> k \<and> k \<le> i + 1 \<longrightarrow> x ! k \<le> x ! j) \<and>
           (\<forall>l a. pc @ [i] = l @ [a, i] \<longrightarrow> x ! a < x ! i)"
        using n by auto
      then show ?thesis unfolding direction_info_def by blast
    qed
  qed
  with a d(3) i show ?thesis
    unfolding detect_inv_def by simp
qed

lemma detect_step_last:
  assumes inv: "detect_inv x p i (links, le, dir) pc"
    and i: "i + 1 = length x"
  defines "L \<equiv> join links le i (pvar_diff (x ! i - x ! le) p)"
  shows "chain x p L (pc @ [i])" "extrema_chain x (pc @ [i])"
proof -
  note d = detect_invD [OF inv]
  from d(3) i have "0 < i" by simp
  with d(8) have le: "le < i" by auto
  have zz: "zigzag x a le i" if "pc = l @ [a, le]" for l a
    using d(15) that unfolding direction_info_def zigzag_def by auto
  have run: "mono_run x le i" using detect_run [OF d(15) d(6)] le by simp
  note a = detect_append [OF inv le zz run, folded L_def]
  from a d(3) i show "chain x p L (pc @ [i])"
    unfolding chain_def by auto
  from a show "extrema_chain x (pc @ [i])"
    unfolding extrema_chain_def by simp
qed


lemma DetectLocalExtrema_for_done:
  "\<not> i < length x \<Longrightarrow> DetectLocalExtrema_for x p i s = Some s"
  by (subst DetectLocalExtrema_for.simps) simp

lemma DetectLocalExtrema_for_chain:
  assumes "detect_inv x p i s pc"
  shows "\<exists>links le dir c. DetectLocalExtrema_for x p i s = Some (links, le, dir) \<and>
           chain x p links c \<and> extrema_chain x c"
  using assms
proof (induction "length x - i" arbitrary: i s pc)
  case 0
  then show ?case by (cases s) (simp add: detect_inv_def)
next
  case (Suc m)
  obtain links le dir where s: "s = (links, le, dir)" by (cases s)
  note inv = Suc.prems [unfolded s]
  note d = detect_invD [OF inv]
  let ?w = "pvar_diff (x ! i - x ! le) p"
  show ?case
  proof (cases "i + 1 = length x")
    case True
    with d(8) d(3) have le: "le < i" by auto
    have "DetectLocalExtrema_body x p i (links, le, dir) = Some (join links le i ?w, i, dir)"
      using detect_body_link [OF d(1) d(2) le, of dir p] True by simp
    then have "DetectLocalExtrema_for x p i s = Some (join links le i ?w, i, dir)"
      using True d(2) s
      by (subst DetectLocalExtrema_for.simps) (simp add: DetectLocalExtrema_for_done)
    with detect_step_last [OF inv True] show ?thesis by blast
  next
    case False
    with d(2) have i: "i + 1 < length x" by simp
    then have m: "m = length x - (i + 1)" using Suc(2) by simp
    show ?thesis
    proof (cases "(x ! i < x ! (i + 1) \<and> dir = - 1) \<or> (x ! (i + 1) < x ! i \<and> dir = 1)")
      case True
      from True d(15) have "x ! i \<noteq> x ! le"
        unfolding direction_info_def by auto
      with d(8) have le: "le < i" by auto
      have b: "DetectLocalExtrema_body x p i (links, le, dir) = Some (join links le i ?w, i, - dir)"
        using detect_body_link [OF d(1) d(2) le, of dir p] True i by simp
      from Suc(1) [OF m detect_step_link [OF inv i True]] b s d(2)
      show ?thesis
        by (subst DetectLocalExtrema_for.simps) simp
    next
      case False
      let ?d = "if x ! i < x ! (i + 1) then 1 else if x ! (i + 1) < x ! i then - 1 else dir"
      from False have no: "\<not> (x ! i < x ! (i + 1) \<and> dir = - 1)"
        "\<not> (x ! (i + 1) < x ! i \<and> dir = 1)" by blast+
      have b: "DetectLocalExtrema_body x p i (links, le, dir) = Some (links, le, ?d)"
        using detect_body_keep [OF i no] .
      from Suc(1) [OF m detect_step_keep [OF inv i no]] b s d(2)
      show ?thesis
        by (subst DetectLocalExtrema_for.simps) simp
    qed
  qed
qed

lemma detect_init:
  assumes "2 \<le> length x"
  defines "L \<equiv> ((new_links (length x))[0 := (new_links (length x) ! 0)\<lparr>prev := 0, pvdiff := 0\<rparr>])"
  shows "detect_inv x p 0
     (L[length x - 1 := (L ! (length x - 1))\<lparr>next := length x\<rparr>], 0, 0) [0]"
proof -
  let ?L = "L[length x - 1 := (L ! (length x - 1))\<lparr>next := length x\<rparr>]"
  from assms(1) have ne: "x \<noteq> []" "0 < length x" "length x - 1 < length x" by auto
  have len: "length L = length x" by (simp add: L_def new_links_def)
  have n: "new_links (length x) ! k = \<lparr>prev = 0, next = 0, pvdiff = 0\<rparr>" if "k < length x" for k
    using that by (simp add: new_links_def)
  have "prev (?L ! k) \<le> length x \<and> next (?L ! k) \<le> length x" if "k < length x" for k
    using that n [of k] n [of 0] ne len
    by (cases "k = length x - 1"; cases "k = 0") (simp_all add: L_def nth_list_update)
  then have 1: "list_all (\<lambda>r. prev r \<le> length x \<and> next r \<le> length x) ?L"
    using len by (simp add: list_all_length)
  have 2: "direction_info x 0 0 0 [0]"
    unfolding direction_info_def by simp
  have 3: "next (?L ! (length x - 1)) = length x" using len ne by simp
  have 4: "prev (?L ! 0) = 0" "pvdiff (?L ! 0) = 0"
    using len ne n [of 0] assms(1)
    by (simp_all add: L_def nth_list_update)
  from assms(1) 1 2 3 4 len ne show ?thesis
    unfolding detect_inv_def
    by (simp add: alternating_short)
qed

lemma DetectLocalExtrema_chain:
  assumes "2 \<le> length x"
  shows "\<exists>links c. DetectLocalExtrema x (new_links (length x)) p = Some links \<and>
           chain x p links c \<and> extrema_chain x c"
proof -
  from assms(1) have ne: "0 < length x" by auto
  define L where "L = ((new_links (length x))[0 := (new_links (length x) ! 0)\<lparr>prev := 0, pvdiff := 0\<rparr>])"
  define L' where "L' = L[length x - 1 := (L ! (length x - 1))\<lparr>next := length x\<rparr>]"
  have len: "length L = length x" by (simp add: L_def new_links_def)
  have "DetectLocalExtrema x (new_links (length x)) p =
     DetectLocalExtrema_for x p 0 (L', 0, 0) \<bind> (\<lambda>(links, last_extremum, direction). Some links)"
    unfolding DetectLocalExtrema_def Let_def
    using ne len by (simp add: new_links_def L'_def L_def)
  moreover obtain links le dir c where
    "DetectLocalExtrema_for x p 0 (L', 0, 0) = Some (links, le, dir)"
    "chain x p links c" "extrema_chain x c"
    using DetectLocalExtrema_for_chain [OF detect_init [OF assms, of p, folded L_def, folded L'_def]]
    by blast
  ultimately show ?thesis by auto
qed

subsection \<open>Neighbours in a chain\<close>

lemma chain_edge:
  assumes "chain x p links (c1 @ a # b # c2)"
  shows "edge x p links a b"
  using assms unfolding chain_def by (simp add: successively_append_iff)

lemma chain_step:
  assumes "chain x p links (c1 @ a # b # c2)"
  shows "next (links ! a) = b" "prev (links ! b) = a"
    "pvdiff (links ! b) = pvar_diff (x ! a - x ! b) p" "a < b" "b < length x" "b < length links"
  using chain_edge [OF assms] assms by (simp_all add: edge_def chain_def)

lemma chain_end:
  assumes "chain x p links (c1 @ [a])"
  shows "next (links ! a) = length x" "a = length x - 1" "a < length x"
  using assms by (simp_all add: chain_def)

lemma chain_begin:
  assumes "chain x p links (a # c)"
  shows "a = 0"
  using assms by (simp add: chain_def)

lemma chain_inner:
  assumes "chain x p links (c1 @ a # c2)" "c1 \<noteq> []"
  shows "0 < a"
proof -
  from assms(2) obtain q c1' where c1: "c1 = q # c1'" by (cases c1) auto
  from chain_sorted [OF assms(1)] c1 have "q < a" by auto
  then show ?thesis by simp
qed

lemma chain_length: "chain x p links c \<Longrightarrow> length links = length x"
  by (simp add: chain_def)

lemma chain_excise:
  assumes c: "chain x p links (c1 @ [i] @ mid @ [j] @ c2)"
  shows "chain x p (join links i j (pvar_diff (x ! i - x ! j) p)) (c1 @ [i, j] @ c2)"
proof -
  let ?c = "c1 @ [i] @ mid @ [j] @ c2"
  let ?L = "join links i j (pvar_diff (x ! i - x ! j) p)"
  have s: "sorted_wrt (<) ?c" using c by (rule chain_sorted)
  then have ij: "i < j" by (auto simp: sorted_wrt_append)
  have j: "j < length x" using chain_bound [OF c, of j] by simp
  have len: "length links = length x" using c by (rule chain_length)
  from c have se: "successively (edge x p links) ?c" by (simp add: chain_def)
  then have s1: "successively (edge x p links) (c1 @ [i])"
    and s2: "successively (edge x p links) (j # c2)"
    by (simp_all add: successively_append_iff successively_Cons)
  have "successively (edge x p ?L) (c1 @ [i])"
  proof (rule successively_edge_join [OF s1])
    show "i \<notin> set (butlast (c1 @ [i]))" using s by (auto simp: sorted_wrt_append)
    show "j \<notin> set (tl (c1 @ [i]))"
    proof
      assume "j \<in> set (tl (c1 @ [i]))"
      then have "j \<in> set (c1 @ [i])" by (metis list.set_sel(2) snoc_eq_iff_butlast)
      with s ij show False by (auto simp: sorted_wrt_append)
    qed
  qed
  moreover have "successively (edge x p ?L) (j # c2)"
  proof (rule successively_edge_join [OF s2])
    show "i \<notin> set (butlast (j # c2))"
    proof
      assume "i \<in> set (butlast (j # c2))"
      then have "i \<in> set (j # c2)" by (rule in_set_butlastD)
      with s ij show False by (auto simp: sorted_wrt_append)
    qed
    show "j \<notin> set (tl (j # c2))" using s by (auto simp: sorted_wrt_append)
  qed
  moreover have "edge x p ?L i j"
    using ij j len by (intro edge_join_new) simp_all
  ultimately have "successively (edge x p ?L) (c1 @ [i, j] @ c2)"
    by (simp add: successively_append_iff successively_Cons)
  moreover have "hd (c1 @ [i, j] @ c2) = 0" "last (c1 @ [i, j] @ c2) = length x - 1"
    using c by (auto simp: chain_def hd_append)
  moreover have "next (?L ! (length x - 1)) = length x"
    "prev (?L ! 0) = 0" "pvdiff (?L ! 0) = 0"
    using join_keeps [OF ij, of links] j len c by (simp_all add: chain_def)
  moreover have "list_all (\<lambda>r. prev r \<le> length x \<and> next r \<le> length x) ?L"
    using c ij j by (intro join_bounds) (simp_all add: chain_def)
  ultimately show ?thesis using c by (simp add: chain_def)
qed


subsection \<open>Sums along index lists\<close>

lemma psum_Cons: "w \<noteq> [] \<Longrightarrow> psum x p (a # w) = pvar_diff (x ! a - x ! hd w) p + psum x p w"
  by (cases w) simp_all

lemma psum_snoc:
  "w \<noteq> [] \<Longrightarrow> psum x p (w @ [a]) = psum x p w + pvar_diff (x ! last w - x ! a) p"
  by (induction x p w rule: psum.induct) simp_all

lemma psum_append:
  "u \<noteq> [] \<Longrightarrow> v \<noteq> [] \<Longrightarrow>
   psum x p (u @ v) = psum x p u + pvar_diff (x ! last u - x ! hd v) p + psum x p v"
  by (induction x p u rule: psum.induct) (simp_all add: psum_Cons)

lemma psum_nonneg: "0 \<le> psum x p w"
  by (induction x p w rule: psum.induct) (simp_all add: pvar_diff_nonneg)

subsection \<open>The backtracking loop\<close>

lemma widen_append:
  "widen k c1 w c2 = Some (c1', w', c2') \<Longrightarrow> w \<noteq> [] \<Longrightarrow>
   c1' @ w' @ c2' = c1 @ w @ c2 \<and> length w' = length w + k \<and> w' \<noteq> []"
proof (induction k arbitrary: c1 w c2)
  case 0
  then show ?case by simp
next
  case (Suc k)
  show ?case
  proof (cases "c1 = []")
    case True
    with Suc.prems have ne: "c2 \<noteq> []" by (auto split: if_splits)
    with Suc.prems True have "widen k c1 (w @ [hd c2]) (tl c2) = Some (c1', w', c2')" by simp
    from Suc.IH [OF this] ne show ?thesis by simp
  next
    case False
    with Suc.prems have "widen k (butlast c1) (last c1 # w) c2 = Some (c1', w', c2')" by simp
    from Suc.IH [OF this] False show ?thesis by simp
  qed
qed

lemma backtrack_body:
  assumes "window x p links (c1, w, c2)"
  shows "CheckShortIntervals_backtrack x (scan_state x p links (c1, w, c2)) =
           scan_flow x p links (widen 1 c1 w c2)"
    and "widen 1 c1 w c2 = Some g \<Longrightarrow> window x p links g"
proof -
  from assms have c: "chain x p links (c1 @ w @ c2)" and w: "w \<noteq> []"
    by (simp_all add: window_def)
  note len = chain_length [OF c]
  from w obtain b w' where wb: "w = b # w'" by (cases w) auto
  from w obtain e w0 where we: "w = w0 @ [e]" by (cases w rule: rev_cases) auto
  have b: "b < length links" using chain_bound [OF c, of b] wb len by simp
  have e: "e < length links" using chain_bound [OF c, of e] we len by simp
  have hw: "hd w = b" using wb by simp
  have lw: "last w = e" using we by simp
  have "CheckShortIntervals_backtrack x (scan_state x p links (c1, w, c2)) =
           scan_flow x p links (widen 1 c1 w c2) \<and>
        (\<forall>g. widen 1 c1 w c2 = Some g \<longrightarrow> window x p links g)"
  proof (cases "c1 = []")
    case False
    then obtain q c1' where c1: "c1 = c1' @ [q]" by (cases c1 rule: rev_cases) auto
    from c c1 wb have c': "chain x p links (c1' @ q # b # (w' @ c2))" by simp
    have b0: "0 < b" using chain_inner [of x p links c1 b "w' @ c2"] c wb False by simp
    have ps: "psum x p (q # w) = psum x p w + pvar_diff (x ! q - x ! b) p"
      using psum_Cons [OF w, of x p q] hw by simp
    have "CheckShortIntervals_backtrack x (links, b, e, psum x p w) =
        Some (Continue (links, q, e, psum x p (q # w)))"
      using chain_step [OF c'] b b0 ps
      by (simp add: CheckShortIntervals_backtrack_def Let_def)
    moreover have "widen 1 c1 w c2 = Some (c1', q # w, c2)" using c1 by simp
    moreover have "window x p links (c1', q # w, c2)"
      using c c1 by (simp add: window_def)
    ultimately show ?thesis using hw lw w
      by (simp add: scan_state_def scan_flow_def)
  next
    case True
    with c wb have b0: "b = 0" using chain_begin [of x p links b "w' @ c2"] by simp
    show ?thesis
    proof (cases c2)
      case Nil
      with c we have "chain x p links ((c1 @ w0) @ [e])" by simp
      from chain_end [OF this] e b0 len
      have "CheckShortIntervals_backtrack x (links, b, e, psum x p w) = Some (Return links)"
        by (simp add: CheckShortIntervals_backtrack_def Let_def)
      moreover have "widen 1 c1 w c2 = None" using True Nil by simp
      ultimately show ?thesis using hw lw
        by (simp add: scan_state_def scan_flow_def)
    next
      case (Cons e' c2')
      with c we have c': "chain x p links ((c1 @ w0) @ e # e' # c2')" by simp
      have ps: "psum x p (w @ [e']) = psum x p w + pvar_diff (x ! e - x ! e') p"
        using psum_snoc [OF w, of x p e'] lw by simp
      have "CheckShortIntervals_backtrack x (links, b, e, psum x p w) =
          Some (Continue (links, b, e', psum x p (w @ [e'])))"
        using chain_step [OF c'] e b0 ps len
        by (simp add: CheckShortIntervals_backtrack_def Let_def)
      moreover have "widen 1 c1 w c2 = Some (c1, w @ [e'], c2')" using True Cons by simp
      moreover have "window x p links (c1, w @ [e'], c2')"
        using c Cons by (simp add: window_def)
      ultimately show ?thesis using hw lw w
        by (simp add: scan_state_def scan_flow_def)
    qed
  qed
  then show "CheckShortIntervals_backtrack x (scan_state x p links (c1, w, c2)) =
           scan_flow x p links (widen 1 c1 w c2)"
    and "widen 1 c1 w c2 = Some g \<Longrightarrow> window x p links g" by blast+
qed


lemma widen_Suc:
  "widen (Suc k) c1 w c2 =
     (case widen 1 c1 w c2 of None \<Rightarrow> None | Some (c1', w', c2') \<Rightarrow> widen k c1' w' c2')"
  by simp

lemma repeat_backtrack:
  assumes "window x p links (c1, w, c2)"
  shows "repeat k (CheckShortIntervals_backtrack x) (scan_state x p links (c1, w, c2)) =
           scan_flow x p links (widen k c1 w c2) \<and>
         (\<forall>g. widen k c1 w c2 = Some g \<longrightarrow> window x p links g)"
  using assms
proof (induction k arbitrary: c1 w c2)
  case 0
  then show ?case by (simp add: scan_flow_def)
next
  case (Suc k)
  note b = backtrack_body [OF Suc.prems]
  show ?case
  proof (cases "widen 1 c1 w c2")
    case None
    with b(1) show ?thesis
      unfolding widen_Suc by (simp add: scan_flow_def)
  next
    case (Some g)
    obtain c1' w' c2' where g: "g = (c1', w', c2')" by (cases g)
    from b(2) [OF Some] g have "window x p links (c1', w', c2')" by simp
    from Suc.IH [OF this] b(1) Some g show ?thesis
      unfolding widen_Suc by (simp add: scan_flow_def)
  qed
qed

text \<open>The first loop of \<^verbatim>\<open>CheckShortIntervals\<close> widens to the right only.\<close>

lemma first_body:
  assumes "window x p links ([], w, c2)"
  shows "CheckShortIntervals_first x links (last w, psum x p w) =
     (case widen 1 [] w c2 of
        None \<Rightarrow> Some (Return links)
      | Some (c1', w', c2') \<Rightarrow> Some (Continue (last w', psum x p w')))"
proof -
  from assms have c: "chain x p links (w @ c2)" and w: "w \<noteq> []"
    by (simp_all add: window_def)
  note len = chain_length [OF c]
  from w obtain e w0 where we: "w = w0 @ [e]" by (cases w rule: rev_cases) auto
  have e: "e < length links" using chain_bound [OF c, of e] we len by simp
  have lw: "last w = e" using we by simp
  show ?thesis
  proof (cases c2)
    case Nil
    with c we have "chain x p links (w0 @ [e])" by simp
    from chain_end [OF this] e len
    have "CheckShortIntervals_first x links (e, psum x p w) = Some (Return links)"
      by (simp add: CheckShortIntervals_first_def Let_def)
    with Nil lw show ?thesis by simp
  next
    case (Cons e' c2')
    with c we have c': "chain x p links (w0 @ e # e' # c2')" by simp
    have ps: "psum x p (w @ [e']) = psum x p w + pvar_diff (x ! e - x ! e') p"
      using psum_snoc [OF w, of x p e'] lw by simp
    have "CheckShortIntervals_first x links (e, psum x p w) =
        Some (Continue (e', psum x p (w @ [e'])))"
      using chain_step [OF c'] e ps len
      by (simp add: CheckShortIntervals_first_def Let_def)
    with Cons lw show ?thesis by simp
  qed
qed

lemma repeat_first:
  assumes "window x p links ([], w, c2)"
  shows "repeat k (CheckShortIntervals_first x links) (last w, psum x p w) =
     (case widen k [] w c2 of
        None \<Rightarrow> Some (Return links)
      | Some (c1', w', c2') \<Rightarrow> Some (Continue (last w', psum x p w')))"
  using assms
proof (induction k arbitrary: w c2)
  case 0
  then show ?case by simp
next
  case (Suc k)
  note b = first_body [OF Suc.prems]
  show ?case
  proof (cases c2)
    case Nil
    with b show ?thesis by simp
  next
    case (Cons e' c2')
    with Suc.prems have "window x p links ([], w @ [e'], c2')"
      by (simp add: window_def)
    from Suc.IH [OF this] b Cons show ?thesis by simp
  qed
qed


subsection \<open>The body of the scan\<close>

lemma body_keep:
  assumes win: "window x p links (c1, w, c2)" and len: "2 \<le> length w"
    and keep: "pvar_diff (x ! hd w - x ! last w) p \<le> psum x p w"
  shows "CheckShortIntervals_body x p (scan_state x p links (c1, w, c2)) =
     (if c2 = [] then Some (Return links)
      else Some (Continue (scan_state x p links (c1 @ [hd w], tl w @ [hd c2], tl c2))))"
    and "c2 \<noteq> [] \<Longrightarrow> window x p links (c1 @ [hd w], tl w @ [hd c2], tl c2)"
proof -
  from win have c: "chain x p links (c1 @ w @ c2)" and w: "w \<noteq> []"
    by (simp_all add: window_def)
  note ll = chain_length [OF c]
  from len obtain b m w' where wb: "w = b # m # w'"
    by (cases w; cases "tl w") auto
  from w obtain e w0 where we: "w = w0 @ [e]" by (cases w rule: rev_cases) auto
  have hw: "hd w = b" using wb by simp
  have lw: "last w = e" using we by simp
  have tw: "tl w \<noteq> []" "hd (tl w) = m" "last (tl w) = e" using wb lw by auto
  have b: "b < length x" using chain_bound [OF c, of b] wb by simp
  have e: "e < length x" using chain_bound [OF c, of e] we by simp
  have m: "m < length x" using chain_bound [OF c, of m] wb by simp
  from c wb have cb: "chain x p links (c1 @ b # m # (w' @ c2))" by simp
  note sb = chain_step [OF cb]
  show "c2 \<noteq> [] \<Longrightarrow> window x p links (c1 @ [hd w], tl w @ [hd c2], tl c2)"
    using c wb by (simp add: window_def)
  show "CheckShortIntervals_body x p (scan_state x p links (c1, w, c2)) =
     (if c2 = [] then Some (Return links)
      else Some (Continue (scan_state x p links (c1 @ [hd w], tl w @ [hd c2], tl c2))))"
  proof (cases c2)
    case Nil
    with c we have "chain x p links ((c1 @ w0) @ [e])" by simp
    from chain_end [OF this] e b ll keep hw lw Nil
    show ?thesis
      by (simp add: CheckShortIntervals_body_def scan_state_def Let_def)
  next
    case (Cons e' c2')
    with c we have ce: "chain x p links ((c1 @ w0) @ e # e' # c2')" by simp
    note se = chain_step [OF ce]
    have "psum x p w = pvar_diff (x ! b - x ! m) p + psum x p (tl w)"
      using wb by simp
    moreover have "psum x p (tl w @ [e']) = psum x p (tl w) + pvar_diff (x ! e - x ! e') p"
      using psum_snoc [OF tw(1), of x p e'] tw(3) by simp
    ultimately have ps: "psum x p (tl w @ [e']) =
       psum x p w - pvar_diff (x ! b - x ! m) p + pvar_diff (x ! e - x ! e') p"
      by simp
    have "CheckShortIntervals_body x p (links, b, e, psum x p w) =
       Some (Continue (links, m, e', psum x p (tl w @ [e'])))"
      using sb se b e m ll keep hw lw ps
      by (simp add: CheckShortIntervals_body_def Let_def)
    with Cons hw lw tw show ?thesis
      by (simp add: scan_state_def)
  qed
qed

lemma body_erase:
  assumes win: "window x p links (c1, w, c2)" and len: "2 \<le> length w"
    and erase: "psum x p w < pvar_diff (x ! hd w - x ! last w) p"
  defines "L \<equiv> join links (hd w) (last w) (pvar_diff (x ! hd w - x ! last w) p)"
  shows "CheckShortIntervals_body x p (scan_state x p links (c1, w, c2)) =
           scan_flow x p L (widen 3 (c1 @ [hd w]) [last w] c2)"
    and "chain x p L (c1 @ [hd w, last w] @ c2)"
    and "widen 3 (c1 @ [hd w]) [last w] c2 = Some g \<Longrightarrow> window x p L g"
proof -
  from win have c: "chain x p links (c1 @ w @ c2)" and w: "w \<noteq> []"
    by (simp_all add: window_def)
  note ll = chain_length [OF c]
  from len obtain b mid e where wb: "w = b # mid @ [e]"
    by (cases w; cases "tl w" rule: rev_cases) auto
  have hw: "hd w = b" using wb by simp
  have lw: "last w = e" using wb by simp
  have b: "b < length x" using chain_bound [OF c, of b] wb by simp
  have e: "e < length x" using chain_bound [OF c, of e] wb by simp
  from c wb have "chain x p links (c1 @ [b] @ mid @ [e] @ c2)" by simp
  from chain_excise [OF this] show cL: "chain x p L (c1 @ [hd w, last w] @ c2)"
    by (simp add: L_def hw lw)
  then have wL: "window x p L (c1 @ [b], [e], c2)"
    by (simp add: window_def hw lw)
  note r = repeat_backtrack [OF wL, of 3]
  have "CheckShortIntervals_body x p (links, b, e, psum x p w) =
      repeat 3 (CheckShortIntervals_backtrack x) (L, e, e, 0)"
    using b e ll erase hw lw
    by (simp add: CheckShortIntervals_body_def Let_def L_def join_def)
  also have "(L, e, e, 0) = scan_state x p L (c1 @ [b], [e], c2)"
    by (simp add: scan_state_def)
  finally show "CheckShortIntervals_body x p (scan_state x p links (c1, w, c2)) =
           scan_flow x p L (widen 3 (c1 @ [hd w]) [last w] c2)"
    using r hw lw by (simp add: scan_state_def)
  show "widen 3 (c1 @ [hd w]) [last w] c2 = Some g \<Longrightarrow> window x p L g"
    using r hw lw by simp
qed


subsection \<open>Termination of the scan\<close>

lemma loop_rule:
  assumes wf: "wf R"
    and init: "I g s"
    and step: "\<And>g s. I g s \<Longrightarrow>
        (case body s of
           None \<Rightarrow> False
         | Some (Return r) \<Rightarrow> Q r
         | Some (Continue s') \<Rightarrow> (\<exists>g'. I g' s' \<and> ((g', s'), (g, s)) \<in> R))"
  shows "\<exists>r. loop body s = Some (Some r) \<and> Q r"
proof -
  have "\<forall>g s. gs = (g, s) \<longrightarrow> I g s \<longrightarrow> (\<exists>r. loop body s = Some (Some r) \<and> Q r)" for gs
  proof (induction gs rule: wf_induct_rule [OF wf])
    case (1 gs)
    show ?case
    proof (intro allI impI)
      fix g s
      assume gs: "gs = (g, s)" and I: "I g s"
      show "\<exists>r. loop body s = Some (Some r) \<and> Q r"
      proof (cases "body s")
        case None
        with step [OF I] show ?thesis by simp
      next
        case (Some f)
        show ?thesis
        proof (cases f)
          case (Return r)
          with Some step [OF I] show ?thesis
            by (subst loop.simps) simp
        next
          case (Continue s')
          with Some step [OF I] obtain g' where "I g' s'" "((g', s'), (g, s)) \<in> R"
            by auto
          with 1 gs have "\<exists>r. loop body s' = Some (Some r) \<and> Q r"
            by blast
          with Some Continue show ?thesis
            by (subst loop.simps) simp
        qed
      qed
    qed
  qed
  with init show ?thesis by blast
qed

text \<open>The scan terminates and keeps every invariant \<open>J\<close> of the split that its two
  steps keep; \<open>Q\<close> is what the invariant gives for the chain at the return.\<close>

lemma scan_loop:
  fixes J :: "nat list \<times> nat list \<times> nat list \<Rightarrow> bool"
  assumes win: "window x p links g" and len: "length (fst (snd g)) = 4" and J: "J g"
    and keepJ: "\<And>l c1 w c2. window x p l (c1, w, c2) \<Longrightarrow> length w = 4 \<Longrightarrow> J (c1, w, c2) \<Longrightarrow>
        pvar_diff (x ! hd w - x ! last w) p \<le> psum x p w \<Longrightarrow> c2 \<noteq> [] \<Longrightarrow>
        J (c1 @ [hd w], tl w @ [hd c2], tl c2)"
    and keepQ: "\<And>l c1 w. window x p l (c1, w, []) \<Longrightarrow> length w = 4 \<Longrightarrow> J (c1, w, []) \<Longrightarrow>
        pvar_diff (x ! hd w - x ! last w) p \<le> psum x p w \<Longrightarrow> Q (c1 @ w)"
    and eraseJ: "\<And>l c1 w c2 g'. window x p l (c1, w, c2) \<Longrightarrow> length w = 4 \<Longrightarrow> J (c1, w, c2) \<Longrightarrow>
        psum x p w < pvar_diff (x ! hd w - x ! last w) p \<Longrightarrow>
        widen 3 (c1 @ [hd w]) [last w] c2 = Some g' \<Longrightarrow> J g'"
    and eraseQ: "\<And>l c1 w c2. window x p l (c1, w, c2) \<Longrightarrow> length w = 4 \<Longrightarrow> J (c1, w, c2) \<Longrightarrow>
        psum x p w < pvar_diff (x ! hd w - x ! last w) p \<Longrightarrow>
        widen 3 (c1 @ [hd w]) [last w] c2 = None \<Longrightarrow> Q (c1 @ [hd w, last w] @ c2)"
  shows "\<exists>r c. loop (CheckShortIntervals_body x p) (scan_state x p links g) = Some (Some r) \<and>
           chain x p r c \<and> Q c"
proof -
  define I where "I g s \<longleftrightarrow> (\<exists>l. window x p l g \<and> length (fst (snd g)) = 4 \<and> J g \<and>
      s = scan_state x p l g)" for g s
  define R :: "(((nat list \<times> nat list \<times> nat list) \<times> (DoublyLinkedList \<times> nat \<times> nat \<times> real)) \<times>
      ((nat list \<times> nat list \<times> nat list) \<times> (DoublyLinkedList \<times> nat \<times> nat \<times> real))) set"
    where "R = inv_image (less_than <*lex*> less_than)
      (\<lambda>((c1, w, c2), s). (length (c1 @ w @ c2), length c2))"
  have wf: "wf R" unfolding R_def by (intro wf_inv_image wf_lex_prod wf_less_than)
  have init: "I g (scan_state x p links g)"
    unfolding I_def using win len J by blast
  have step: "case CheckShortIntervals_body x p s of
           None \<Rightarrow> False
         | Some (Return r) \<Rightarrow> \<exists>c. chain x p r c \<and> Q c
         | Some (Continue s') \<Rightarrow> (\<exists>g'. I g' s' \<and> ((g', s'), (g, s)) \<in> R)"
    if "I g s" for g s
  proof -
    obtain c1 w c2 where g: "g = (c1, w, c2)" by (cases g)
    from that g obtain l where l: "window x p l (c1, w, c2)" "length w = 4" "J (c1, w, c2)"
      "s = scan_state x p l (c1, w, c2)"
      unfolding I_def by auto
    from l(2) have w2: "2 \<le> length w" by simp
    from l(1) have c: "chain x p l (c1 @ w @ c2)" by (simp add: window_def)
    show ?thesis
    proof (cases "pvar_diff (x ! hd w - x ! last w) p \<le> psum x p w")
      case True
      note k = body_keep [OF l(1) w2 True]
      show ?thesis
      proof (cases "c2 = []")
        case True
        with k(1) l(4) have "CheckShortIntervals_body x p s = Some (Return l)" by simp
        moreover have "Q (c1 @ w)" using keepQ l \<open>pvar_diff (x ! hd w - x ! last w) p \<le> psum x p w\<close> True
          by blast
        ultimately show ?thesis using c True by auto
      next
        case False
        let ?g = "(c1 @ [hd w], tl w @ [hd c2], tl c2)"
        from k(1) l(4) False have "CheckShortIntervals_body x p s =
            Some (Continue (scan_state x p l ?g))" by simp
        moreover have "I ?g (scan_state x p l ?g)"
          unfolding I_def using k(2) [OF False] keepJ [OF l(1-3) True False] l(2) by auto
        moreover have "((?g, scan_state x p l ?g), (g, s)) \<in> R"
          using False l(2) unfolding R_def g by (cases w) auto
        ultimately show ?thesis by auto
      qed
    next
      case False
      then have er: "psum x p w < pvar_diff (x ! hd w - x ! last w) p" by simp
      let ?L = "join l (hd w) (last w) (pvar_diff (x ! hd w - x ! last w) p)"
      note e = body_erase [OF l(1) w2 er]
      show ?thesis
      proof (cases "widen 3 (c1 @ [hd w]) [last w] c2")
        case None
        with e(1) l(4) have "CheckShortIntervals_body x p s = Some (Return ?L)"
          by (simp add: scan_flow_def)
        moreover have "Q (c1 @ [hd w, last w] @ c2)" using eraseQ [OF l(1-3) er None] .
        ultimately show ?thesis using e(2) by auto
      next
        case (Some g')
        obtain c1' w' c2' where g': "g' = (c1', w', c2')" by (cases g')
        from e(1) l(4) Some have "CheckShortIntervals_body x p s =
            Some (Continue (scan_state x p ?L g'))"
          by (simp add: scan_flow_def)
        moreover from widen_append [OF Some [unfolded g']]
        have wa: "c1' @ w' @ c2' = (c1 @ [hd w]) @ [last w] @ c2" "length w' = 4" by simp_all
        have "I g' (scan_state x p ?L g')"
          unfolding I_def using e(3) [OF Some] eraseJ [OF l(1-3) er Some] wa(2) g' by auto
        moreover have "length (c1' @ w' @ c2') < length (c1 @ w @ c2)"
          unfolding wa(1) using l(2) by simp
        then have "((g', scan_state x p ?L g'), (g, s)) \<in> R"
          unfolding R_def g g' by simp
        ultimately show ?thesis by (simp del: split_paired_Ex) blast
      qed
    qed
  qed
  from loop_rule [where R = R and I = I and g = g and s = "scan_state x p links g"
      and body = "CheckShortIntervals_body x p" and Q = "\<lambda>r. \<exists>c. chain x p r c \<and> Q c",
      OF wf init step]
  show ?thesis by blast
qed


lemma widen_Nil:
  "widen k [] w c2 = Some (c1', w', c2') \<Longrightarrow> w \<noteq> [] \<Longrightarrow> c1' = [] \<and> hd w' = hd w"
proof (induction k arbitrary: w c2)
  case 0
  then show ?case by simp
next
  case (Suc k)
  from Suc.prems have ne: "c2 \<noteq> []" by (auto split: if_splits)
  with Suc.prems have "widen k [] (w @ [hd c2]) (tl c2) = Some (c1', w', c2')" by simp
  from Suc.IH [OF this] Suc.prems(2) show ?case by simp
qed

lemma CheckShortIntervals_scan:
  fixes J :: "nat list \<times> nat list \<times> nat list \<Rightarrow> bool"
  assumes c: "chain x p links c"
    and J0: "\<And>g. widen 3 [] [0] (tl c) = Some g \<Longrightarrow> J g"
    and Q0: "widen 3 [] [0] (tl c) = None \<Longrightarrow> Q c"
    and keepJ: "\<And>l c1 w c2. window x p l (c1, w, c2) \<Longrightarrow> length w = 4 \<Longrightarrow> J (c1, w, c2) \<Longrightarrow>
        pvar_diff (x ! hd w - x ! last w) p \<le> psum x p w \<Longrightarrow> c2 \<noteq> [] \<Longrightarrow>
        J (c1 @ [hd w], tl w @ [hd c2], tl c2)"
    and keepQ: "\<And>l c1 w. window x p l (c1, w, []) \<Longrightarrow> length w = 4 \<Longrightarrow> J (c1, w, []) \<Longrightarrow>
        pvar_diff (x ! hd w - x ! last w) p \<le> psum x p w \<Longrightarrow> Q (c1 @ w)"
    and eraseJ: "\<And>l c1 w c2 g'. window x p l (c1, w, c2) \<Longrightarrow> length w = 4 \<Longrightarrow> J (c1, w, c2) \<Longrightarrow>
        psum x p w < pvar_diff (x ! hd w - x ! last w) p \<Longrightarrow>
        widen 3 (c1 @ [hd w]) [last w] c2 = Some g' \<Longrightarrow> J g'"
    and eraseQ: "\<And>l c1 w c2. window x p l (c1, w, c2) \<Longrightarrow> length w = 4 \<Longrightarrow> J (c1, w, c2) \<Longrightarrow>
        psum x p w < pvar_diff (x ! hd w - x ! last w) p \<Longrightarrow>
        widen 3 (c1 @ [hd w]) [last w] c2 = None \<Longrightarrow> Q (c1 @ [hd w, last w] @ c2)"
  shows "\<exists>r c'. CheckShortIntervals x links p = Some (Some r) \<and> chain x p r c' \<and> Q c'"
proof -
  from c obtain c' where c0: "c = 0 # c'" by (cases c) (auto simp: chain_def)
  with c have win: "window x p links ([], [0], tl c)" by (simp add: window_def)
  note r = repeat_first [OF win, of 3]
  show ?thesis
  proof (cases "widen 3 [] [0] (tl c)")
    case None
    with r have "CheckShortIntervals x links p = Some (Some links)"
      by (simp add: CheckShortIntervals_def)
    moreover note c Q0 [OF None]
    ultimately show ?thesis by blast
  next
    case (Some g)
    obtain c1 w c2 where g: "g = (c1, w, c2)" by (cases g)
    from widen_Nil [OF Some [unfolded g]] have h: "c1 = []" "hd w = 0" by simp_all
    from widen_append [OF Some [unfolded g]] have len: "length w = 4" by simp
    from repeat_backtrack [OF win, of 3] Some have wg: "window x p links g" by simp
    from r Some g h have "CheckShortIntervals x links p =
        loop (CheckShortIntervals_body x p) (scan_state x p links g)"
      by (simp add: CheckShortIntervals_def scan_state_def)
    moreover have "\<exists>r c. loop (CheckShortIntervals_body x p) (scan_state x p links g) = Some (Some r) \<and>
           chain x p r c \<and> Q c"
    proof (rule scan_loop [where J = J])
      show "window x p links g" by fact
      show "length (fst (snd g)) = 4" using len g by simp
      show "J g" using J0 [OF Some] .
    qed (rule keepJ keepQ eraseJ eraseQ; assumption)+
    ultimately show ?thesis by simp
  qed
qed

subsection \<open>The two walks of \<^verbatim>\<open>Merge2GoodInt\<close>\<close>

lemma sorted_wrt_hd_last_eq:
  assumes "sorted_wrt (<) (c::nat list)" "c \<noteq> []" "hd c = last c"
  shows "length c = 1"
proof (cases c)
  case (Cons a c')
  show ?thesis
  proof (cases "c' = []")
    case False
    then have "last c' \<in> set c'" by simp
    with assms Cons False show ?thesis by auto
  qed (use Cons in simp)
qed (use assms in simp)

lemma chain_part_sorted:
  "chain x p links (c1 @ w @ c2) \<Longrightarrow> sorted_wrt (<) w"
  using chain_sorted [of x p links "c1 @ w @ c2"] by (simp add: sorted_wrt_append)

lemma back_walk:
  assumes "chain x p links (c1 @ pre @ post)" "pre \<noteq> []"
  shows "loop (Merge2GoodInt_back x links (hd pre)) (last pre, e, mn, mx, mins, maxs) =
           Some (Some (extremes x p (last pre) (rev (butlast pre)) e mn mx mins maxs))"
  using assms
proof (induction "length pre" arbitrary: pre post e mn mx mins maxs)
  case 0
  then show ?case by simp
next
  case (Suc n)
  note c = Suc.prems(1)
  note len = chain_length [OF c]
  show ?case
  proof (cases "length pre = 1")
    case True
    then obtain a where "pre = [a]" by (cases pre) auto
    then show ?thesis
      by (subst loop.simps) (simp add: Merge2GoodInt_back_def)
  next
    case False
    with Suc.prems(2) obtain pre' q u where pre: "pre = pre' @ [q, u]"
      by (cases pre rule: rev_cases; cases "butlast pre" rule: rev_cases) auto
    have ne: "u \<noteq> hd pre"
      using sorted_wrt_hd_last_eq [OF chain_part_sorted [OF c] Suc.prems(2)] False pre by auto
    from c pre have c': "chain x p links ((c1 @ pre') @ q # u # post)" by simp
    note st = chain_step [OF c']
    have u: "u < length links" using st len by simp
    have q: "q < length x" using st by simp
    have c'': "chain x p links (c1 @ (pre' @ [q]) @ (u # post))" using c pre by simp
    have n: "n = length (pre' @ [q])" using Suc(2) pre by simp
    have hd: "hd (pre' @ [q]) = hd pre" using pre by (cases pre') auto
    have sym: "pvar_diff (x ! q - x ! u) p = pvar_diff (x ! u - x ! q) p"
      by (rule pvar_diff_minus)
    have "Merge2GoodInt_back x links (hd pre) (u, e, mn, mx, mins, maxs) =
      Some (Continue (q, e + pvar_diff (x ! u - x ! q) p,
        (if x ! q < mn then x ! q else mn), (if mx < x ! q then x ! q else mx),
        (if x ! q < mn then mins @ [\<lparr>it = q, ev = e + pvar_diff (x ! u - x ! q) p\<rparr>] else mins),
        (if mx < x ! q then maxs @ [\<lparr>it = q, ev = e + pvar_diff (x ! u - x ! q) p\<rparr>] else maxs)))"
      using ne u q st(2,3) sym
      by (simp add: Merge2GoodInt_back_def Let_def)
    moreover have "rev (butlast pre) = q # rev pre'" "last pre = u"
      using pre by (simp_all add: butlast_append)
    moreover note Suc(1) [OF n c'', unfolded hd]
    ultimately show ?thesis
      by (subst loop.simps) simp
  qed
qed

lemma forw_walk:
  assumes "chain x p links (c1 @ suf @ c2)" "suf \<noteq> []"
  shows "loop (Merge2GoodInt_forw x links (last suf)) (hd suf, e, mn, mx, mins, maxs) =
           Some (Some (extremes x p (hd suf) (tl suf) e mn mx mins maxs))"
  using assms
proof (induction suf arbitrary: c1 e mn mx mins maxs)
  case Nil
  then show ?case by simp
next
  case (Cons u suf)
  note c = Cons.prems(1)
  note len = chain_length [OF c]
  show ?case
  proof (cases suf)
    case Nil
    then show ?thesis
      by (subst loop.simps) (simp add: Merge2GoodInt_forw_def)
  next
    case (Cons q suf')
    have ne: "u \<noteq> last (u # suf)"
      using sorted_wrt_hd_last_eq [OF chain_part_sorted [OF c]] Cons by auto
    from c Cons have c': "chain x p links (c1 @ u # q # (suf' @ c2))" by simp
    note st = chain_step [OF c']
    have u: "u < length links" using chain_bound [OF c, of u] len by simp
    have c'': "chain x p links ((c1 @ [u]) @ suf @ c2)" using c by simp
    have "Merge2GoodInt_forw x links (last (u # suf)) (u, e, mn, mx, mins, maxs) =
      Some (Continue (q, e + pvar_diff (x ! u - x ! q) p,
        (if x ! q < mn then x ! q else mn), (if mx < x ! q then x ! q else mx),
        (if x ! q < mn then mins @ [\<lparr>it = q, ev = e + pvar_diff (x ! u - x ! q) p\<rparr>] else mins),
        (if mx < x ! q then maxs @ [\<lparr>it = q, ev = e + pvar_diff (x ! u - x ! q) p\<rparr>] else maxs)))"
      using ne u st
      by (simp add: Merge2GoodInt_forw_def Let_def)
    with Cons.IH [OF c''] Cons show ?thesis
      by (subst loop.simps) simp
  qed
qed


subsection \<open>The search for the best joint\<close>

lemma bits_step:
  assumes "it ait < length x" "bpos < length bs" "it (bs ! bpos) < length x"
  shows "Merge2GoodInt_bits x p ait bs bpos (mb, tf, ta, tb, sb) =
     Merge2GoodInt_bits x p ait bs (bpos + 1)
       (if mb < balance x p ait (bs ! bpos)
        then (balance x p ait (bs ! bpos), pvar_diff (x ! it ait - x ! it (bs ! bpos)) p,
              Some ait, Some (bs ! bpos), bpos)
        else (mb, tf, ta, tb, sb))"
  using assms
  by (subst Merge2GoodInt_bits.simps) (simp add: balance_def Let_def)

lemma bits_done:
  "Merge2GoodInt_bits x p ait bs (length bs) s = Some s"
  by (subst Merge2GoodInt_bits.simps) simp

lemma bits_scan:
  assumes "it ait < length x" "\<forall>b\<in>set bs. it b < length x" "bpos \<le> length bs"
  shows "\<exists>mb' tf' ta' tb' sb'.
     Merge2GoodInt_bits x p ait bs bpos (mb, tf, ta, tb, sb) = Some (mb', tf', ta', tb', sb') \<and>
     mb \<le> mb' \<and>
     (\<forall>k. bpos \<le> k \<and> k < length bs \<longrightarrow> balance x p ait (bs ! k) \<le> mb') \<and>
     ((mb', tf', ta', tb', sb') = (mb, tf, ta, tb, sb) \<or>
      mb < mb' \<and> bpos \<le> sb' \<and> sb' < length bs \<and> ta' = Some ait \<and> tb' = Some (bs ! sb') \<and>
      tf' = pvar_diff (x ! it ait - x ! it (bs ! sb')) p \<and> mb' = balance x p ait (bs ! sb'))"
  using assms(3)
proof (induction "length bs - bpos" arbitrary: bpos mb tf ta tb sb)
  case 0
  then have "bpos = length bs" by simp
  then show ?case by (simp add: bits_done)
next
  case (Suc n)
  then have k: "bpos < length bs" by simp
  with assms(2) have v: "it (bs ! bpos) < length x" by simp
  let ?B = "balance x p ait (bs ! bpos)"
  note st = bits_step [OF assms(1) k v, of p mb tf ta tb sb]
  have n: "n = length bs - (bpos + 1)" "bpos + 1 \<le> length bs" using Suc(2) k by simp_all
  show ?case
  proof (cases "mb < ?B")
    case True
    from Suc(1) [OF n, of ?B "pvar_diff (x ! it ait - x ! it (bs ! bpos)) p" "Some ait"
        "Some (bs ! bpos)" bpos]
    obtain mb' tf' ta' tb' sb' where r:
      "Merge2GoodInt_bits x p ait bs (bpos + 1)
         (?B, pvar_diff (x ! it ait - x ! it (bs ! bpos)) p, Some ait, Some (bs ! bpos), bpos) =
       Some (mb', tf', ta', tb', sb')"
      "?B \<le> mb'"
      "\<forall>k. bpos + 1 \<le> k \<and> k < length bs \<longrightarrow> balance x p ait (bs ! k) \<le> mb'"
      "(mb', tf', ta', tb', sb') =
         (?B, pvar_diff (x ! it ait - x ! it (bs ! bpos)) p, Some ait, Some (bs ! bpos), bpos) \<or>
       ?B < mb' \<and> bpos + 1 \<le> sb' \<and> sb' < length bs \<and> ta' = Some ait \<and> tb' = Some (bs ! sb') \<and>
       tf' = pvar_diff (x ! it ait - x ! it (bs ! sb')) p \<and> mb' = balance x p ait (bs ! sb')"
      by blast
    have "balance x p ait (bs ! k) \<le> mb'" if "bpos \<le> k" "k < length bs" for k
    proof (cases "k = bpos")
      case True
      with r(2) show ?thesis by simp
    next
      case False
      with that r(3) show ?thesis by simp
    qed
    moreover have "mb < mb' \<and> bpos \<le> sb' \<and> sb' < length bs \<and> ta' = Some ait \<and>
      tb' = Some (bs ! sb') \<and> tf' = pvar_diff (x ! it ait - x ! it (bs ! sb')) p \<and>
      mb' = balance x p ait (bs ! sb')"
      using r(4) True k by auto
    moreover have "mb \<le> mb'" using True r(2) by simp
    ultimately show ?thesis using st True r(1) by auto
  next
    case False
    from Suc(1) [OF n, of mb tf ta tb sb]
    obtain mb' tf' ta' tb' sb' where r:
      "Merge2GoodInt_bits x p ait bs (bpos + 1) (mb, tf, ta, tb, sb) = Some (mb', tf', ta', tb', sb')"
      "mb \<le> mb'"
      "\<forall>k. bpos + 1 \<le> k \<and> k < length bs \<longrightarrow> balance x p ait (bs ! k) \<le> mb'"
      "(mb', tf', ta', tb', sb') = (mb, tf, ta, tb, sb) \<or>
       mb < mb' \<and> bpos + 1 \<le> sb' \<and> sb' < length bs \<and> ta' = Some ait \<and> tb' = Some (bs ! sb') \<and>
       tf' = pvar_diff (x ! it ait - x ! it (bs ! sb')) p \<and> mb' = balance x p ait (bs ! sb')"
      by blast
    have "balance x p ait (bs ! k) \<le> mb'" if "bpos \<le> k" "k < length bs" for k
    proof (cases "k = bpos")
      case True
      with r(2) False show ?thesis by simp
    next
      case False
      with that r(3) show ?thesis by simp
    qed
    moreover have "(mb', tf', ta', tb', sb') = (mb, tf, ta, tb, sb) \<or>
      mb < mb' \<and> bpos \<le> sb' \<and> sb' < length bs \<and> ta' = Some ait \<and> tb' = Some (bs ! sb') \<and>
      tf' = pvar_diff (x ! it ait - x ! it (bs ! sb')) p \<and> mb' = balance x p ait (bs ! sb')"
      using r(4) by auto
    ultimately show ?thesis using st False r(1,2) by auto
  qed
qed


lemma aits_scan:
  assumes "\<forall>a\<in>set as. it a < length x" "\<forall>b\<in>set bs. it b < length x"
    and "sb < length bs \<or> sb = 0"
  shows "\<exists>mb' tf' ta' tb' sb'.
     Merge2GoodInt_aits x p as bs (mb, tf, ta, tb, sb) = Some (mb', tf', ta', tb', sb') \<and>
     mb \<le> mb' \<and>
     ((mb', tf', ta', tb', sb') = (mb, tf, ta, tb, sb) \<or>
      mb < mb' \<and> sb' < length bs \<and>
      (\<exists>a\<in>set as. ta' = Some a \<and> tb' = Some (bs ! sb') \<and>
         tf' = pvar_diff (x ! it a - x ! it (bs ! sb')) p \<and> mb' = balance x p a (bs ! sb'))) \<and>
     (monge x p as bs \<and> (\<forall>a\<in>set as. \<forall>k<sb. balance x p a (bs ! k) \<le> balance x p a (bs ! sb)) \<longrightarrow>
      (\<forall>a\<in>set as. \<forall>b\<in>set bs. balance x p a b \<le> mb'))"
  using assms(1,3)
proof (induction as arbitrary: mb tf ta tb sb)
  case Nil
  then show ?case by simp
next
  case (Cons a as)
  from Cons.prems have va: "it a < length x" and vas: "\<forall>a\<in>set as. it a < length x" by simp_all
  from Cons.prems(2) have sbl: "sb \<le> length bs" by auto
  from bits_scan [OF va assms(2) sbl, of p mb tf ta tb sb]
  obtain mb1 tf1 ta1 tb1 sb1 where b:
    "Merge2GoodInt_bits x p a bs sb (mb, tf, ta, tb, sb) = Some (mb1, tf1, ta1, tb1, sb1)"
    "mb \<le> mb1"
    "\<forall>k. sb \<le> k \<and> k < length bs \<longrightarrow> balance x p a (bs ! k) \<le> mb1"
    "(mb1, tf1, ta1, tb1, sb1) = (mb, tf, ta, tb, sb) \<or>
      mb < mb1 \<and> sb \<le> sb1 \<and> sb1 < length bs \<and> ta1 = Some a \<and> tb1 = Some (bs ! sb1) \<and>
      tf1 = pvar_diff (x ! it a - x ! it (bs ! sb1)) p \<and> mb1 = balance x p a (bs ! sb1)"
    by blast
  from b(4) Cons.prems(2) have sb1: "sb1 < length bs \<or> sb1 = 0" by auto
  from Cons.IH [OF vas sb1, of mb1 tf1 ta1 tb1]
  obtain mb' tf' ta' tb' sb' where r:
    "Merge2GoodInt_aits x p as bs (mb1, tf1, ta1, tb1, sb1) = Some (mb', tf', ta', tb', sb')"
    "mb1 \<le> mb'"
    "(mb', tf', ta', tb', sb') = (mb1, tf1, ta1, tb1, sb1) \<or>
      mb1 < mb' \<and> sb' < length bs \<and>
      (\<exists>a\<in>set as. ta' = Some a \<and> tb' = Some (bs ! sb') \<and>
         tf' = pvar_diff (x ! it a - x ! it (bs ! sb')) p \<and> mb' = balance x p a (bs ! sb'))"
    "monge x p as bs \<and> (\<forall>a\<in>set as. \<forall>k<sb1. balance x p a (bs ! k) \<le> balance x p a (bs ! sb1)) \<longrightarrow>
      (\<forall>a\<in>set as. \<forall>b\<in>set bs. balance x p a b \<le> mb')"
    by blast
  have 1: "Merge2GoodInt_aits x p (a # as) bs (mb, tf, ta, tb, sb) = Some (mb', tf', ta', tb', sb')"
    using b(1) r(1) by simp
  have 2: "mb \<le> mb'" using b(2) r(2) by simp
  have 3: "(mb', tf', ta', tb', sb') = (mb, tf, ta, tb, sb) \<or>
      mb < mb' \<and> sb' < length bs \<and>
      (\<exists>a\<in>set (a # as). ta' = Some a \<and> tb' = Some (bs ! sb') \<and>
         tf' = pvar_diff (x ! it a - x ! it (bs ! sb')) p \<and> mb' = balance x p a (bs ! sb'))"
  proof -
    consider (same) "(mb', tf', ta', tb', sb') = (mb1, tf1, ta1, tb1, sb1)"
      | (later) "mb1 < mb'" "sb' < length bs"
          "\<exists>a\<in>set as. ta' = Some a \<and> tb' = Some (bs ! sb') \<and>
             tf' = pvar_diff (x ! it a - x ! it (bs ! sb')) p \<and> mb' = balance x p a (bs ! sb')"
      using r(3) by blast
    then show ?thesis
    proof cases
      case same
      with b(4) show ?thesis by auto
    next
      case later
      with b(2) show ?thesis by auto
    qed
  qed
  have 4: "\<forall>a'\<in>set (a # as). \<forall>b\<in>set bs. balance x p a' b \<le> mb'"
    if m: "monge x p (a # as) bs"
      and pi: "\<forall>a'\<in>set (a # as). \<forall>k<sb. balance x p a' (bs ! k) \<le> balance x p a' (bs ! sb)"
  proof -
    have head: "balance x p a (bs ! k) \<le> mb1" if "k < length bs" for k
    proof (cases "sb \<le> k")
      case True
      with b(3) that show ?thesis by simp
    next
      case False
      then have k: "k < sb" by simp
      with Cons.prems(2) have "sb < length bs" by auto
      with b(3) have "balance x p a (bs ! sb) \<le> mb1" by simp
      with pi k show ?thesis by fastforce
    qed
    have m': "monge x p as bs" using m by (simp add: monge_def)
    have pi': "balance x p a' (bs ! k) \<le> balance x p a' (bs ! sb1)"
      if a': "a' \<in> set as" and k: "k < sb1" for a' k
    proof -
      from b(4) show ?thesis
      proof
        assume "(mb1, tf1, ta1, tb1, sb1) = (mb, tf, ta, tb, sb)"
        with pi a' k show ?thesis by simp
      next
        assume u: "mb < mb1 \<and> sb \<le> sb1 \<and> sb1 < length bs \<and> ta1 = Some a \<and> tb1 = Some (bs ! sb1) \<and>
          tf1 = pvar_diff (x ! it a - x ! it (bs ! sb1)) p \<and> mb1 = balance x p a (bs ! sb1)"
        with k have kl: "k < length bs" by simp
        from head [OF kl] u have "balance x p a (bs ! k) \<le> balance x p a (bs ! sb1)" by simp
        moreover from m a' k u have
          "pvar_diff (x ! it a - x ! it (bs ! sb1)) p + pvar_diff (x ! it a' - x ! it (bs ! k)) p
            \<le> pvar_diff (x ! it a - x ! it (bs ! k)) p + pvar_diff (x ! it a' - x ! it (bs ! sb1)) p"
          by (simp add: monge_def)
        ultimately show ?thesis by (simp add: balance_def)
      qed
    qed
    from r(4) m' pi' have tl: "\<forall>a\<in>set as. \<forall>b\<in>set bs. balance x p a b \<le> mb'" by blast
    have "balance x p a b \<le> mb'" if "b \<in> set bs" for b
    proof -
      from that obtain k where "k < length bs" "b = bs ! k" by (auto simp: in_set_conv_nth)
      with head [of k] r(2) show ?thesis by simp
    qed
    with tl show ?thesis by simp
  qed
  from 1 2 3 4 show ?case by blast
qed


lemma join_search:
  assumes v1: "\<forall>a\<in>set av_mins. it a < length x" and v2: "\<forall>a\<in>set av_maxs. it a < length x"
    and v3: "\<forall>b\<in>set vb_mins. it b < length x" and v4: "\<forall>b\<in>set vb_maxs. it b < length x"
    and len: "length links = length x"
  defines "pairs \<equiv> \<lambda>a b. a \<in> set av_mins \<and> b \<in> set vb_maxs \<or> a \<in> set av_maxs \<and> b \<in> set vb_mins"
  shows "Merge2GoodInt_join x p links av_mins av_maxs vb_mins vb_maxs = Some links \<and>
           (monge x p av_mins vb_maxs \<and> monge x p av_maxs vb_mins \<longrightarrow>
              (\<forall>a b. pairs a b \<longrightarrow> balance x p a b \<le> 0)) \<or>
         (\<exists>a b. pairs a b \<and> 0 < balance x p a b \<and>
            Merge2GoodInt_join x p links av_mins av_maxs vb_mins vb_maxs =
              Some (join links (it a) (it b) (pvar_diff (x ! it a - x ! it b) p)) \<and>
            (monge x p av_mins vb_maxs \<and> monge x p av_maxs vb_mins \<longrightarrow>
              (\<forall>a' b'. pairs a' b' \<longrightarrow> balance x p a' b' \<le> balance x p a b)))"
proof -
  from aits_scan [OF v1 v4, of 0 p 0 0 None None]
  obtain mb1 tf1 ta1 tb1 sb1 where r1:
    "Merge2GoodInt_aits x p av_mins vb_maxs (0, 0, None, None, 0) = Some (mb1, tf1, ta1, tb1, sb1)"
    "0 \<le> mb1"
    "(mb1, tf1, ta1, tb1, sb1) = (0, 0, None, None, 0) \<or>
      0 < mb1 \<and> sb1 < length vb_maxs \<and>
      (\<exists>a\<in>set av_mins. ta1 = Some a \<and> tb1 = Some (vb_maxs ! sb1) \<and>
         tf1 = pvar_diff (x ! it a - x ! it (vb_maxs ! sb1)) p \<and> mb1 = balance x p a (vb_maxs ! sb1))"
    "monge x p av_mins vb_maxs \<longrightarrow> (\<forall>a\<in>set av_mins. \<forall>b\<in>set vb_maxs. balance x p a b \<le> mb1)"
    by auto
  from aits_scan [OF v2 v3, of 0 p mb1 tf1 ta1 tb1]
  obtain mb2 tf2 ta2 tb2 sb2 where r2:
    "Merge2GoodInt_aits x p av_maxs vb_mins (mb1, tf1, ta1, tb1, 0) = Some (mb2, tf2, ta2, tb2, sb2)"
    "mb1 \<le> mb2"
    "(mb2, tf2, ta2, tb2, sb2) = (mb1, tf1, ta1, tb1, 0) \<or>
      mb1 < mb2 \<and> sb2 < length vb_mins \<and>
      (\<exists>a\<in>set av_maxs. ta2 = Some a \<and> tb2 = Some (vb_mins ! sb2) \<and>
         tf2 = pvar_diff (x ! it a - x ! it (vb_mins ! sb2)) p \<and> mb2 = balance x p a (vb_mins ! sb2))"
    "monge x p av_maxs vb_mins \<longrightarrow> (\<forall>a\<in>set av_maxs. \<forall>b\<in>set vb_mins. balance x p a b \<le> mb2)"
    by auto
  have all: "balance x p a b \<le> mb2"
    if "monge x p av_mins vb_maxs" "monge x p av_maxs vb_mins" "pairs a b" for a b
    using that r1(4) r2(2,4) unfolding pairs_def by fastforce
  have ev: "Merge2GoodInt_join x p links av_mins av_maxs vb_mins vb_maxs =
      (if 0 < mb2 then
         do {
           ta \<leftarrow> ta2;
           tb \<leftarrow> tb2;
           links \<leftarrow> upd links (it ta) (\<lambda>r. r\<lparr>next := it tb\<rparr>);
           links \<leftarrow> upd links (it tb) (\<lambda>r. r\<lparr>prev := it ta\<rparr>);
           links \<leftarrow> upd links (it tb) (\<lambda>r. r\<lparr>pvdiff := tf2\<rparr>);
           Some links
         }
       else Some links)"
    using r1(1) r2(1) by (simp add: Merge2GoodInt_join_def Let_def)
  show ?thesis
  proof (cases "0 < mb2")
    case False
    with ev all show ?thesis by fastforce
  next
    case True
    have "\<exists>a b. pairs a b \<and> ta2 = Some a \<and> tb2 = Some b \<and>
        tf2 = pvar_diff (x ! it a - x ! it b) p \<and> mb2 = balance x p a b"
    proof -
      from r2(3) show ?thesis
      proof
        assume s: "(mb2, tf2, ta2, tb2, sb2) = (mb1, tf1, ta1, tb1, 0)"
        with True r1(3) have "sb1 < length vb_maxs \<and>
          (\<exists>a\<in>set av_mins. ta1 = Some a \<and> tb1 = Some (vb_maxs ! sb1) \<and>
           tf1 = pvar_diff (x ! it a - x ! it (vb_maxs ! sb1)) p \<and> mb1 = balance x p a (vb_maxs ! sb1))"
          by auto
        with s show ?thesis unfolding pairs_def by auto
      next
        assume "mb1 < mb2 \<and> sb2 < length vb_mins \<and>
          (\<exists>a\<in>set av_maxs. ta2 = Some a \<and> tb2 = Some (vb_mins ! sb2) \<and>
           tf2 = pvar_diff (x ! it a - x ! it (vb_mins ! sb2)) p \<and> mb2 = balance x p a (vb_mins ! sb2))"
        then show ?thesis unfolding pairs_def by auto
      qed
    qed
    then obtain a b where ab: "pairs a b" "ta2 = Some a" "tb2 = Some b"
      "tf2 = pvar_diff (x ! it a - x ! it b) p" "mb2 = balance x p a b" by blast
    from ab(1) v1 v2 v3 v4 len have "it a < length links" "it b < length links"
      unfolding pairs_def by auto
    with ev True ab have "Merge2GoodInt_join x p links av_mins av_maxs vb_mins vb_maxs =
       Some (join links (it a) (it b) (pvar_diff (x ! it a - x ! it b) p))"
      by (simp add: join_def)
    with ab True all show ?thesis by blast
  qed
qed


subsection \<open>The candidate lists\<close>

lemma extremes_mins_mem:
  assumes "a \<in> set (fst (extremes x p u qs e mn mx mins maxs))"
  shows "a \<in> set mins \<or>
     (\<exists>k<length qs. it a = qs ! k \<and> ev a = e + psum x p (u # take (k + 1) qs) \<and> x ! (qs ! k) < mn)"
  using assms
proof (induction qs arbitrary: u e mn mx mins maxs)
  case Nil
  then show ?case by simp
next
  case (Cons q qs)
  let ?e = "e + pvar_diff (x ! u - x ! q) p"
  let ?mn = "if x ! q < mn then x ! q else mn"
  let ?mins = "if x ! q < mn then mins @ [\<lparr>it = q, ev = ?e\<rparr>] else mins"
  from Cons.prems have "a \<in> set (fst (extremes x p q qs ?e ?mn
      (if mx < x ! q then x ! q else mx) ?mins
      (if mx < x ! q then maxs @ [\<lparr>it = q, ev = ?e\<rparr>] else maxs)))"
    by simp
  from Cons.IH [OF this] consider (old) "a \<in> set ?mins"
    | (new) k where "k < length qs" "it a = qs ! k" "ev a = ?e + psum x p (q # take (k + 1) qs)"
        "x ! (qs ! k) < ?mn"
    by blast
  then show ?case
  proof cases
    case old
    show ?thesis
    proof (cases "a \<in> set mins")
      case False
      with old have "x ! q < mn" "a = \<lparr>it = q, ev = ?e\<rparr>" by (auto split: if_splits)
      then have "0 < length (q # qs) \<and> it a = (q # qs) ! 0 \<and>
         ev a = e + psum x p (u # take (0 + 1) (q # qs)) \<and> x ! ((q # qs) ! 0) < mn"
        by simp
      then show ?thesis by blast
    qed simp
  next
    case new
    then have "k + 1 < length (q # qs) \<and> it a = (q # qs) ! (k + 1) \<and>
         ev a = e + psum x p (u # take (k + 1 + 1) (q # qs)) \<and> x ! ((q # qs) ! (k + 1)) < mn"
      by (auto split: if_splits)
    then show ?thesis by blast
  qed
qed

lemma extremes_maxs_mem:
  assumes "a \<in> set (snd (extremes x p u qs e mn mx mins maxs))"
  shows "a \<in> set maxs \<or>
     (\<exists>k<length qs. it a = qs ! k \<and> ev a = e + psum x p (u # take (k + 1) qs) \<and> mx < x ! (qs ! k))"
  using assms
proof (induction qs arbitrary: u e mn mx mins maxs)
  case Nil
  then show ?case by simp
next
  case (Cons q qs)
  let ?e = "e + pvar_diff (x ! u - x ! q) p"
  let ?mx = "if mx < x ! q then x ! q else mx"
  let ?maxs = "if mx < x ! q then maxs @ [\<lparr>it = q, ev = ?e\<rparr>] else maxs"
  from Cons.prems have "a \<in> set (snd (extremes x p q qs ?e
      (if x ! q < mn then x ! q else mn) ?mx
      (if x ! q < mn then mins @ [\<lparr>it = q, ev = ?e\<rparr>] else mins) ?maxs))"
    by simp
  from Cons.IH [OF this] consider (old) "a \<in> set ?maxs"
    | (new) k where "k < length qs" "it a = qs ! k" "ev a = ?e + psum x p (q # take (k + 1) qs)"
        "?mx < x ! (qs ! k)"
    by blast
  then show ?case
  proof cases
    case old
    show ?thesis
    proof (cases "a \<in> set maxs")
      case False
      with old have "mx < x ! q" "a = \<lparr>it = q, ev = ?e\<rparr>" by (auto split: if_splits)
      then have "0 < length (q # qs) \<and> it a = (q # qs) ! 0 \<and>
         ev a = e + psum x p (u # take (0 + 1) (q # qs)) \<and> mx < x ! ((q # qs) ! 0)"
        by simp
      then show ?thesis by blast
    qed simp
  next
    case new
    then have "k + 1 < length (q # qs) \<and> it a = (q # qs) ! (k + 1) \<and>
         ev a = e + psum x p (u # take (k + 1 + 1) (q # qs)) \<and> mx < x ! ((q # qs) ! (k + 1))"
      by (auto split: if_splits)
    then show ?thesis by blast
  qed
qed


subsection \<open>\<^verbatim>\<open>Merge2GoodInt\<close> on two adjacent intervals\<close>

lemma Merge2GoodInt_cases:
  assumes c: "chain x p links (c1 @ left @ [v] @ right @ c2)"
    and ne: "left \<noteq> []" "right \<noteq> []"
  defines "A \<equiv> extremes x p v (rev left) 0 (x ! v) (x ! v) [] []"
    and "B \<equiv> extremes x p v right 0 (x ! v) (x ! v) [] []"
  defines "pairs \<equiv> \<lambda>a b. a \<in> set (fst A) \<and> b \<in> set (snd B) \<or> a \<in> set (snd A) \<and> b \<in> set (fst B)"
  shows "Merge2GoodInt x p links (hd left) v (last right) = Some (Some links) \<and>
           (monge x p (fst A) (snd B) \<and> monge x p (snd A) (fst B) \<longrightarrow>
              (\<forall>a b. pairs a b \<longrightarrow> balance x p a b \<le> 0)) \<or>
         (\<exists>a b. pairs a b \<and> 0 < balance x p a b \<and>
            Merge2GoodInt x p links (hd left) v (last right) =
              Some (Some (join links (it a) (it b) (pvar_diff (x ! it a - x ! it b) p))) \<and>
            (monge x p (fst A) (snd B) \<and> monge x p (snd A) (fst B) \<longrightarrow>
              (\<forall>a' b'. pairs a' b' \<longrightarrow> balance x p a' b' \<le> balance x p a b)))"
proof -
  note len = chain_length [OF c]
  have s: "sorted_wrt (<) (left @ [v] @ right)"
    using chain_part_sorted [of x p links c1 "left @ [v] @ right" c2] c by simp
  have av: "hd left \<noteq> v" using s ne(1) by (cases left) (auto simp: sorted_wrt_append)
  have vb: "v \<noteq> last right" using s ne(2) by (auto simp: sorted_wrt_append)
  have v: "v < length x" using chain_bound [OF c, of v] by simp
  have inl: "q < length x" if "q \<in> set left" for q using chain_bound [OF c, of q] that by simp
  have inr: "q < length x" if "q \<in> set right" for q using chain_bound [OF c, of q] that by simp
  have cb: "chain x p links (c1 @ (left @ [v]) @ (right @ c2))" using c by simp
  have bk: "loop (Merge2GoodInt_back x links (hd left)) (v, 0, x ! v, x ! v, [], []) = Some (Some A)"
    using back_walk [OF cb, of 0 "x ! v" "x ! v" "[]" "[]"] ne(1) by (simp add: A_def)
  have cf: "chain x p links ((c1 @ left) @ (v # right) @ c2)" using c by simp
  have fw: "loop (Merge2GoodInt_forw x links (last right)) (v, 0, x ! v, x ! v, [], []) = Some (Some B)"
    using forw_walk [OF cf, of 0 "x ! v" "x ! v" "[]" "[]"] ne(2) by (simp add: B_def)
  have v1: "\<forall>a\<in>set (fst A). it a < length x"
    using extremes_mins_mem [of _ x p v "rev left" 0 "x ! v" "x ! v" "[]" "[]"] inl
    unfolding A_def by (metis empty_iff empty_set length_rev nth_mem set_rev)
  have v2: "\<forall>a\<in>set (snd A). it a < length x"
    using extremes_maxs_mem [of _ x p v "rev left" 0 "x ! v" "x ! v" "[]" "[]"] inl
    unfolding A_def by (metis empty_iff empty_set length_rev nth_mem set_rev)
  have v3: "\<forall>a\<in>set (fst B). it a < length x"
    using extremes_mins_mem [of _ x p v right 0 "x ! v" "x ! v" "[]" "[]"] inr
    unfolding B_def by (metis empty_iff empty_set nth_mem)
  have v4: "\<forall>a\<in>set (snd B). it a < length x"
    using extremes_maxs_mem [of _ x p v right 0 "x ! v" "x ! v" "[]" "[]"] inr
    unfolding B_def by (metis empty_iff empty_set nth_mem)
  have "Merge2GoodInt x p links (hd left) v (last right) =
      Some (Merge2GoodInt_join x p links (fst A) (snd A) (fst B) (snd B))"
    using av vb v bk fw
    by (simp add: Merge2GoodInt_def seq_def split: prod.splits)
  with join_search [OF v1 v2 v3 v4 len, of p] show ?thesis
    unfolding pairs_def by auto
qed

lemma candidate_left:
  assumes "a \<in> set (fst (candidates x p v (rev left))) \<or> a \<in> set (snd (candidates x p v (rev left)))"
  shows "it a \<in> set left"
proof -
  from assms extremes_mins_mem [of a x p v "rev left" 0 "x ! v" "x ! v" "[]" "[]"]
    extremes_maxs_mem [of a x p v "rev left" 0 "x ! v" "x ! v" "[]" "[]"]
  obtain k where "k < length (rev left)" "it a = rev left ! k"
    unfolding candidates_def by auto
  then show ?thesis by (metis nth_mem set_rev)
qed

lemma candidate_right:
  assumes "a \<in> set (fst (candidates x p v right)) \<or> a \<in> set (snd (candidates x p v right))"
  shows "it a \<in> set right"
proof -
  from assms extremes_mins_mem [of a x p v right 0 "x ! v" "x ! v" "[]" "[]"]
    extremes_maxs_mem [of a x p v right 0 "x ! v" "x ! v" "[]" "[]"]
  obtain k where "k < length right" "it a = right ! k"
    unfolding candidates_def by auto
  then show ?thesis by simp
qed

lemma Merge2GoodInt_merged:
  assumes c: "chain x p links (c1 @ left @ [v] @ right @ c2)"
    and ne: "left \<noteq> []" "right \<noteq> []"
  shows "\<exists>links' c'. Merge2GoodInt x p links (hd left) v (last right) = Some (Some links') \<and>
           chain x p links' c' \<and> merged x p c1 left v right c2 c'"
proof -
  note m = Merge2GoodInt_cases [OF c ne, folded candidates_def]
  let ?P = "\<lambda>a b. a \<in> set (fst (candidates x p v (rev left))) \<and> b \<in> set (snd (candidates x p v right)) \<or>
     a \<in> set (snd (candidates x p v (rev left))) \<and> b \<in> set (fst (candidates x p v right))"
  from m consider
    (same) "Merge2GoodInt x p links (hd left) v (last right) = Some (Some links)"
      "cand_monge x p left v right \<longrightarrow> (\<forall>a b. cand_pair x p left v right a b \<longrightarrow> balance x p a b \<le> 0)"
    | (cut) ta tb where "cand_pair x p left v right ta tb" "0 < balance x p ta tb"
      "Merge2GoodInt x p links (hd left) v (last right) =
         Some (Some (join links (it ta) (it tb) (pvar_diff (x ! it ta - x ! it tb) p)))"
      "cand_monge x p left v right \<longrightarrow>
         (\<forall>a b. cand_pair x p left v right a b \<longrightarrow> balance x p a b \<le> balance x p ta tb)"
    unfolding cand_pair_def cand_monge_def by blast
  then show ?thesis
  proof cases
    case same
    with c show ?thesis unfolding merged_def by blast
  next
    case cut
    from cut(1) have "it ta \<in> set left" "it tb \<in> set right"
      using candidate_left [of ta x p v left] candidate_right [of tb x p v right]
      unfolding cand_pair_def by blast+
    then obtain l1 l2 r1 r2 where sp: "left = l1 @ it ta # l2" "right = r1 @ it tb # r2"
      by (meson split_list)
    with c have "chain x p links ((c1 @ l1) @ [it ta] @ (l2 @ [v] @ r1) @ [it tb] @ (r2 @ c2))"
      by simp
    from chain_excise [OF this]
    have "chain x p (join links (it ta) (it tb) (pvar_diff (x ! it ta - x ! it tb) p))
        (c1 @ l1 @ [it ta, it tb] @ r2 @ c2)" by simp
    with cut sp show ?thesis unfolding merged_def by blast
  qed
qed

lemma merged_subset:
  assumes "merged x p c1 left v right c2 c'"
  shows "set c' \<subseteq> set (c1 @ left @ [v] @ right @ c2)"
    and "left \<noteq> [] \<Longrightarrow> right \<noteq> [] \<Longrightarrow> hd left \<in> set c' \<and> last right \<in> set c'"
    and "set c1 \<union> set c2 \<subseteq> set c'"
    and "left \<noteq> [] \<Longrightarrow> hd c' = hd (c1 @ left)" "right \<noteq> [] \<Longrightarrow> last c' = last (right @ c2)"
proof -
  from assms consider (same) "c' = c1 @ left @ [v] @ right @ c2"
    | (cut) i j l1 l2 r1 r2 where "left = l1 @ i # l2" "right = r1 @ j # r2"
        "c' = c1 @ l1 @ [i, j] @ r2 @ c2"
    unfolding merged_def by blast
  then have "set c' \<subseteq> set (c1 @ left @ [v] @ right @ c2) \<and>
     (left \<noteq> [] \<longrightarrow> right \<noteq> [] \<longrightarrow> hd left \<in> set c' \<and> last right \<in> set c') \<and>
     set c1 \<union> set c2 \<subseteq> set c' \<and> (left \<noteq> [] \<longrightarrow> hd c' = hd (c1 @ left)) \<and>
     (right \<noteq> [] \<longrightarrow> last c' = last (right @ c2))"
  proof cases
    case same
    then show ?thesis by (auto simp: hd_append)
  next
    case cut
    have "hd (l1 @ i # l2) \<in> set (l1 @ [i])" by (cases l1) auto
    moreover have "last (r1 @ j # r2) \<in> set (j # r2)" by (cases r2 rule: rev_cases) auto
    moreover have "hd (c1 @ l1 @ [i, j] @ r2 @ c2) = hd (c1 @ l1 @ i # l2)"
      by (cases c1; cases l1) auto
    moreover have "last (c1 @ l1 @ [i, j] @ r2 @ c2) = last ((r1 @ j # r2) @ c2)"
      by (cases c2 rule: rev_cases; cases r2 rule: rev_cases) auto
    ultimately show ?thesis using cut by auto
  qed
  then show "set c' \<subseteq> set (c1 @ left @ [v] @ right @ c2)"
    and "left \<noteq> [] \<Longrightarrow> right \<noteq> [] \<Longrightarrow> hd left \<in> set c' \<and> last right \<in> set c'"
    and "set c1 \<union> set c2 \<subseteq> set c'"
    and "left \<noteq> [] \<Longrightarrow> hd c' = hd (c1 @ left)" "right \<noteq> [] \<Longrightarrow> last c' = last (right @ c2)"
    by blast+
qed

lemma split3:
  assumes "sorted_wrt (<) (c::nat list)" "a \<in> set c" "v \<in> set c" "b \<in> set c" "a < v" "v < b"
  shows "\<exists>c1 left right c2. c = c1 @ left @ [v] @ right @ c2 \<and>
           left \<noteq> [] \<and> hd left = a \<and> right \<noteq> [] \<and> last right = b"
proof -
  from assms(3) obtain xs ys where c: "c = xs @ v # ys" by (meson split_list)
  with assms have "a \<in> set xs" "b \<in> set ys"
    by (auto simp: sorted_wrt_append)
  then obtain c1 l r c2 where "xs = c1 @ a # l" "ys = r @ b # c2" by (meson split_list)
  with c have "c = c1 @ (a # l) @ [v] @ (r @ [b]) @ c2" by simp
  then show ?thesis by (metis hd_Cons_tl last_snoc list.sel(1) list.discI snoc_eq_iff_butlast)
qed


subsection \<open>The boundary list\<close>

lemma fill_done:
  "\<not> itr < length x \<Longrightarrow>
   loop (MergeIntervalsRecursively_fill x links LSI) (itr, count, il) = Some (Some il)"
  by (subst loop.simps) (simp add: MergeIntervalsRecursively_fill_def)

lemma fill_walk:
  assumes "chain x p links (c1 @ rest)" "rest \<noteq> []" "LSI \<noteq> 0"
  shows "loop (MergeIntervalsRecursively_fill x links LSI) (hd rest, count, il) =
           Some (Some (il @ marks LSI count rest))"
  using assms(1,2)
proof (induction rest arbitrary: c1 count il)
  case Nil
  then show ?case by simp
next
  case (Cons q rest)
  note c = Cons.prems(1)
  note len = chain_length [OF c]
  have q: "q < length x" using chain_bound [OF c, of q] by simp
  let ?il = "if count mod LSI = 0 then il @ [q] else il"
  show ?case
  proof (cases rest)
    case Nil
    with c have "next (links ! q) = length x" using chain_end [of x p links c1 q] by simp
    with q len assms(3) have "MergeIntervalsRecursively_fill x links LSI (q, count, il) =
        Some (Continue (length x, count + 1, ?il))"
      by (simp add: MergeIntervalsRecursively_fill_def Let_def)
    with Nil fill_done [of "length x" x links LSI "count + 1" ?il] show ?thesis
      by (subst loop.simps) simp
  next
    case (Cons q' rest')
    with c have "chain x p links (c1 @ q # q' # rest')" by simp
    from chain_step(1) [OF this] q len assms(3)
    have "MergeIntervalsRecursively_fill x links LSI (q, count, il) =
        Some (Continue (q', count + 1, ?il))"
      by (simp add: MergeIntervalsRecursively_fill_def Let_def)
    moreover have "chain x p links ((c1 @ [q]) @ rest)" using c by simp
    from Cons.IH [OF this, of "count + 1" ?il] Cons
    have "loop (MergeIntervalsRecursively_fill x links LSI) (q', count + 1, ?il) =
        Some (Some (?il @ marks LSI (count + 1) rest))" by simp
    ultimately show ?thesis
      by (subst loop.simps) simp
  qed
qed

lemma set_marks: "set (marks LSI k c) \<subseteq> set c"
  by (induction c arbitrary: k) auto

lemma sorted_marks: "sorted_wrt (<) (c::nat list) \<Longrightarrow> sorted_wrt (<) (marks LSI k c)"
proof (induction c arbitrary: k)
  case (Cons q c)
  then show ?case using set_marks [of LSI "k + 1" c] by (auto simp: sorted_wrt_append)
qed simp

lemma strict_sorted_nat:
  "sorted_wrt (<) (c::nat list) \<Longrightarrow> sorted c \<and> distinct c"
  using strict_sorted_iff [of c] by blast

lemma bounds_marks:
  assumes "sorted_wrt (<) (c::nat list)" "c \<noteq> []"
  shows "bounds c (marks LSI 0 c @ [last c])"
proof -
  from assms(2) obtain q c' where c: "c = q # c'" by (cases c) auto
  have m: "hd (marks LSI 0 c) = hd c" "marks LSI 0 c \<noteq> []" unfolding c by simp_all
  have s: "sorted_wrt (<) (marks LSI 0 c)" using assms(1) by (rule sorted_marks)
  note sd = strict_sorted_nat [OF s]
  have le: "i \<le> last c" if "i \<in> set (marks LSI 0 c)" for i
    using sorted_wrt_le_last [OF assms(1), of i] set_marks [of LSI 0 c] that by auto
  have "sorted (marks LSI 0 c @ [last c])"
    using sd le by (simp add: sorted_append)
  moreover have "set (marks LSI 0 c @ [last c]) \<subseteq> set c"
    using set_marks [of LSI 0 c] assms(2) by auto
  ultimately show ?thesis using m sd by (simp add: bounds_def)
qed


lemma bounds_merged:
  assumes b: "bounds (c1 @ left @ [v] @ right @ c2) (f @ hd left # v # last right # r)"
    and s: "sorted_wrt (<) (c1 @ left @ [v] @ right @ c2)"
    and ne: "left \<noteq> []" "right \<noteq> []"
    and m: "merged x p c1 left v right c2 c'"
  shows "bounds c' (f @ hd left # last right # r)"
proof -
  let ?c = "c1 @ left @ [v] @ right @ c2"
  let ?a = "hd left" and ?b = "last right"
  note ms = merged_subset [OF m]
  from b have il: "hd (f @ ?a # v # ?b # r) = hd ?c" "last (f @ ?a # v # ?b # r) = last ?c"
    "set (f @ ?a # v # ?b # r) \<subseteq> set ?c" "sorted (f @ ?a # v # ?b # r)"
    "distinct (butlast (f @ ?a # v # ?b # r))"
    by (simp_all add: bounds_def)
  have 1: "hd (f @ ?a # ?b # r) = hd c'"
  proof -
    have "hd (f @ ?a # ?b # r) = hd (f @ ?a # v # ?b # r)" by (cases f) auto
    also have "\<dots> = hd ?c" by (rule il(1))
    also have "\<dots> = hd (c1 @ left)" using ne(1) by (cases c1) auto
    finally show ?thesis using ms(4) [OF ne(1)] by simp
  qed
  have 2: "last (f @ ?a # ?b # r) = last c'"
  proof -
    have "last (f @ ?a # ?b # r) = last (f @ ?a # v # ?b # r)" by simp
    also have "\<dots> = last ?c" by (rule il(2))
    also have "\<dots> = last (right @ c2)" using ne(2) by simp
    finally show ?thesis using ms(5) [OF ne(2)] by simp
  qed
  have 3: "sorted (f @ ?a # ?b # r)" using il(4) by (auto simp: sorted_append)
  have 4: "distinct (butlast (f @ ?a # ?b # r))"
    using il(5) by (auto simp: butlast_append dest: in_set_butlastD split: if_splits)
  have 5: "set (f @ ?a # ?b # r) \<subseteq> set c'"
  proof
    fix e assume e: "e \<in> set (f @ ?a # ?b # r)"
    then consider "e \<in> set f" | "e = ?a" | "e = ?b" | "e \<in> set r" by auto
    then show "e \<in> set c'"
    proof cases
      case 1
      with il(4) have "e \<le> ?a" by (auto simp: sorted_append)
      moreover from 1 il(5) have "e \<noteq> ?a" by (auto simp: butlast_append)
      ultimately have lt: "e < ?a" by simp
      from 1 il(3) have "e \<in> set ?c" by auto
      moreover have "?a \<le> q" if "q \<in> set (left @ [v] @ right @ c2)" for q
      proof -
        from s have "sorted_wrt (<) (left @ [v] @ right @ c2)" by (simp add: sorted_wrt_append)
        from sorted_wrt_hd_le [OF this that] ne(1) show ?thesis by simp
      qed
      ultimately have "e \<in> set c1" using lt by force
      with ms(3) show ?thesis by auto
    next
      case 2
      with ms(2) [OF ne] show ?thesis by simp
    next
      case 3
      with ms(2) [OF ne] show ?thesis by simp
    next
      case 4
      with il(4) have ge: "?b \<le> e" by (auto simp: sorted_append)
      show ?thesis
      proof (cases "e = ?b")
        case True
        with ms(2) [OF ne] show ?thesis by simp
      next
        case False
        with ge have lt: "?b < e" by simp
        from 4 il(3) have "e \<in> set ?c" by auto
        moreover have "q \<le> ?b" if "q \<in> set (c1 @ left @ [v] @ right)" for q
        proof -
          from s have "sorted_wrt (<) (c1 @ left @ [v] @ right)" by (auto simp: sorted_wrt_append)
          from sorted_wrt_le_last [OF this that] ne(2) show ?thesis by simp
        qed
        ultimately have "e \<in> set c2" using lt by force
        with ms(3) show ?thesis by auto
      qed
    qed
  qed
  from 1 2 3 4 5 show ?thesis by (simp add: bounds_def)
qed

lemma bounds_degenerate:
  assumes "bounds c (f @ a # v # v # r)"
  shows "bounds c (f @ a # v # r)"
proof -
  have "hd (f @ a # v # r) = hd (f @ a # v # v # r)" by (cases f) auto
  moreover have "distinct (butlast (f @ a # v # r))"
    using assms by (auto simp: bounds_def butlast_append dest: in_set_butlastD split: if_splits)
  moreover have "sorted (f @ a # v # r)" using assms by (auto simp: bounds_def sorted_append)
  ultimately show ?thesis using assms by (simp add: bounds_def)
qed


subsection \<open>Rounds of pairwise merges\<close>

lemma pass_merge:
  fixes J :: "nat list \<Rightarrow> nat list \<Rightarrow> bool"
  assumes pres: "\<And>c1 left v right c2 c' f r.
        J (c1 @ left @ [v] @ right @ c2) (f @ hd left # v # last right # r) \<Longrightarrow>
        left \<noteq> [] \<Longrightarrow> right \<noteq> [] \<Longrightarrow> sorted_wrt (<) (c1 @ left @ [v] @ right @ c2) \<Longrightarrow>
        merged x p c1 left v right c2 c' \<Longrightarrow> J c' (f @ hd left # last right # r)"
    and degen: "\<And>c f a v r. J c (f @ a # v # v # r) \<Longrightarrow> J c (f @ a # v # r)"
    and "chain x p links c" "bounds c (front @ il)" "J c (front @ il)"
  shows "\<exists>links' c' il'.
     MergeIntervalsRecursively_pass x p links front il = Some (Some (links', il')) \<and>
     chain x p links' c' \<and> bounds c' il' \<and> J c' il' \<and> set c' \<subseteq> set c \<and>
     (if 2 < length il then length il' < length (front @ il) else il' = front @ il)"
  using assms(3-5)
proof (induction "length il" arbitrary: il links c front rule: less_induct)
  case less
  note c = less.prems(1) and b = less.prems(2) and J = less.prems(3)
  show ?case
  proof (cases "2 < length il")
    case False
    then have "MergeIntervalsRecursively_pass x p links front il = Some (Some (links, front @ il))"
      by (cases il; cases "tl il"; cases "tl (tl il)") auto
    with c b J False show ?thesis by auto
  next
    case True
    then obtain a v e rest where il: "il = a # v # e # rest"
      by (cases il; cases "tl il"; cases "tl (tl il)") auto
    from b il have srt: "sorted (front @ a # v # e # rest)"
      and dst: "distinct (butlast (front @ a # v # e # rest))"
      and sub: "set (front @ a # v # e # rest) \<subseteq> set c"
      by (simp_all add: bounds_def)
    from srt have le: "a \<le> v" "v \<le> e" by (auto simp: sorted_append)
    from dst have "a \<noteq> v" by (auto simp: butlast_append split: if_splits)
    with le have av: "a < v" by simp
    have "\<exists>links1 c1'. Merge2GoodInt x p links a v e = Some (Some links1) \<and>
        chain x p links1 c1' \<and> bounds c1' ((front @ [a]) @ (e # rest)) \<and>
        J c1' ((front @ [a]) @ (e # rest)) \<and> set c1' \<subseteq> set c"
    proof (cases "v = e")
      case True
      then have "Merge2GoodInt x p links a v e = Some (Some links)"
        by (simp add: Merge2GoodInt_def)
      moreover have "bounds c ((front @ [a]) @ (e # rest))"
        using bounds_degenerate [of c front a v rest] b il True by simp
      moreover have "J c ((front @ [a]) @ (e # rest))"
        using degen [of c front a v rest] J il True by simp
      ultimately show ?thesis using c by blast
    next
      case False
      with le have ve: "v < e" by simp
      from sub have "a \<in> set c" "v \<in> set c" "e \<in> set c" by auto
      from split3 [OF chain_sorted [OF c] this av ve]
      obtain c1 left right c2 where sp: "c = c1 @ left @ [v] @ right @ c2"
        "left \<noteq> []" "hd left = a" "right \<noteq> []" "last right = e" by blast
      from Merge2GoodInt_merged [OF c [unfolded sp(1)] sp(2,4)] sp(3,5)
      obtain links1 c1' where m: "Merge2GoodInt x p links a v e = Some (Some links1)"
        "chain x p links1 c1'" "merged x p c1 left v right c2 c1'" by auto
      have s: "sorted_wrt (<) (c1 @ left @ [v] @ right @ c2)"
        using chain_sorted [OF c] sp(1) by simp
      have "bounds c1' (front @ a # e # rest)"
        using bounds_merged [OF _ s sp(2,4) m(3), of front rest] b il sp by simp
      moreover have "J c1' (front @ a # e # rest)"
        using pres [OF _ sp(2,4) s m(3), of front rest] J il sp by simp
      moreover have "set c1' \<subseteq> set c"
        using merged_subset(1) [OF m(3)] sp(1) by simp
      ultimately show ?thesis using m by auto
    qed
    then obtain links1 c1' where m: "Merge2GoodInt x p links a v e = Some (Some links1)"
      "chain x p links1 c1'" "bounds c1' ((front @ [a]) @ (e # rest))"
      "J c1' ((front @ [a]) @ (e # rest))" "set c1' \<subseteq> set c" by blast
    have "length (e # rest) < length il" using il by simp
    from less.hyps [OF this m(2,3,4)]
    obtain links' c' il' where r:
      "MergeIntervalsRecursively_pass x p links1 (front @ [a]) (e # rest) = Some (Some (links', il'))"
      "chain x p links' c'" "bounds c' il'" "J c' il'" "set c' \<subseteq> set c1'"
      "if 2 < length (e # rest) then length il' < length ((front @ [a]) @ e # rest)
       else il' = (front @ [a]) @ e # rest"
      by blast
    from r(6) have "length il' < length (front @ il)" using il by (auto split: if_splits)
    moreover have "MergeIntervalsRecursively_pass x p links front il = Some (Some (links', il'))"
      using il m(1) r(1) by simp
    ultimately show ?thesis using r(2-5) m(5) True by auto
  qed
qed

lemma while_merge:
  fixes J :: "nat list \<Rightarrow> nat list \<Rightarrow> bool"
  assumes pres: "\<And>c1 left v right c2 c' f r.
        J (c1 @ left @ [v] @ right @ c2) (f @ hd left # v # last right # r) \<Longrightarrow>
        left \<noteq> [] \<Longrightarrow> right \<noteq> [] \<Longrightarrow> sorted_wrt (<) (c1 @ left @ [v] @ right @ c2) \<Longrightarrow>
        merged x p c1 left v right c2 c' \<Longrightarrow> J c' (f @ hd left # last right # r)"
    and degen: "\<And>c f a v r. J c (f @ a # v # v # r) \<Longrightarrow> J c (f @ a # v # r)"
    and "chain x p links c" "bounds c il" "J c il"
  shows "\<exists>links' c' il'.
     MergeIntervalsRecursively_while x p links il = Some (Some links') \<and>
     chain x p links' c' \<and> bounds c' il' \<and> J c' il' \<and> set c' \<subseteq> set c \<and> length il' \<le> 2"
  using assms(3-5)
proof (induction "length il" arbitrary: il links c rule: less_induct)
  case less
  note c = less.prems(1) and b = less.prems(2) and J = less.prems(3)
  show ?case
  proof (cases "2 < length il")
    case False
    then have "MergeIntervalsRecursively_while x p links il = Some (Some links)"
      by (subst MergeIntervalsRecursively_while.simps) simp
    moreover from False have "length il \<le> 2" by simp
    ultimately show ?thesis using c b J by blast
  next
    case True
    have "\<exists>links' c' il'.
       MergeIntervalsRecursively_pass x p links [] il = Some (Some (links', il')) \<and>
       chain x p links' c' \<and> bounds c' il' \<and> J c' il' \<and> set c' \<subseteq> set c \<and>
       (if 2 < length il then length il' < length ([] @ il) else il' = [] @ il)"
    proof (rule pass_merge [where J = J])
      show "chain x p links c" by fact
      show "bounds c ([] @ il)" using b by simp
      show "J c ([] @ il)" using J by simp
    qed (rule pres degen; assumption)+
    with True obtain links1 c1 il1 where r:
      "MergeIntervalsRecursively_pass x p links [] il = Some (Some (links1, il1))"
      "chain x p links1 c1" "bounds c1 il1" "J c1 il1" "set c1 \<subseteq> set c"
      "length il1 < length il" by auto
    from less.hyps [OF r(6) r(2-4)]
    obtain links' c' il' where w:
      "MergeIntervalsRecursively_while x p links1 il1 = Some (Some links')"
      "chain x p links' c'" "bounds c' il'" "J c' il'" "set c' \<subseteq> set c1" "length il' \<le> 2"
      by blast
    have "MergeIntervalsRecursively_while x p links il = Some (Some links')"
      using True r(1) w(1) by (subst MergeIntervalsRecursively_while.simps) simp
    with w r(5) show ?thesis by blast
  qed
qed

lemma MergeIntervalsRecursively_merge:
  fixes J :: "nat list \<Rightarrow> nat list \<Rightarrow> bool"
  assumes pres: "\<And>c1 left v right c2 c' f r.
        J (c1 @ left @ [v] @ right @ c2) (f @ hd left # v # last right # r) \<Longrightarrow>
        left \<noteq> [] \<Longrightarrow> right \<noteq> [] \<Longrightarrow> sorted_wrt (<) (c1 @ left @ [v] @ right @ c2) \<Longrightarrow>
        merged x p c1 left v right c2 c' \<Longrightarrow> J c' (f @ hd left # last right # r)"
    and degen: "\<And>c f a v r. J c (f @ a # v # v # r) \<Longrightarrow> J c (f @ a # v # r)"
    and c: "chain x p links c" and LSI: "LSI \<noteq> 0"
    and J: "J c (marks LSI 0 c @ [last c])"
  shows "\<exists>links' c' il'.
     MergeIntervalsRecursively x links p LSI = Some (Some links') \<and>
     chain x p links' c' \<and> bounds c' il' \<and> J c' il' \<and> set c' \<subseteq> set c \<and> length il' \<le> 2"
proof -
  from c have ne: "c \<noteq> []" and hd: "hd c = 0" and last: "last c = length x - 1"
    and n: "0 < length x" by (simp_all add: chain_def)
  have "chain x p links ([] @ c)" using c by simp
  from fill_walk [OF this ne LSI, of 0 "[]"] hd
  have "loop (MergeIntervalsRecursively_fill x links LSI) (0, 0, []) = Some (Some (marks LSI 0 c))"
    by simp
  moreover have "size_minus_1 x = last c" using last n by (simp add: size_minus_1_def)
  ultimately have "MergeIntervalsRecursively x links p LSI =
     MergeIntervalsRecursively_while x p links (marks LSI 0 c @ [last c])"
    by (simp add: MergeIntervalsRecursively_def seq_def)
  moreover have "\<exists>links' c' il'.
     MergeIntervalsRecursively_while x p links (marks LSI 0 c @ [last c]) = Some (Some links') \<and>
     chain x p links' c' \<and> bounds c' il' \<and> J c' il' \<and> set c' \<subseteq> set c \<and> length il' \<le> 2"
  proof (rule while_merge [where J = J])
    show "chain x p links c" by fact
    show "bounds c (marks LSI 0 c @ [last c])"
      using bounds_marks [OF chain_sorted [OF c] ne] .
    show "J c (marks LSI 0 c @ [last c])" by fact
  qed (rule pres degen; assumption)+
  ultimately show ?thesis by simp
qed

subsection \<open>The final walk\<close>

lemma sum_walk:
  assumes "chain x p links (c1 @ rest)" "rest \<noteq> []"
  shows "loop (pvar_sum x links) (pvalue, hd rest) =
           Some (Some (pvalue + (\<Sum>i\<leftarrow>rest. pvdiff (links ! i))))"
  using assms
proof (induction rest arbitrary: c1 pvalue)
  case Nil
  then show ?case by simp
next
  case (Cons q rest)
  note c = Cons.prems(1)
  note len = chain_length [OF c]
  have q: "q < length x" using chain_bound [OF c, of q] by simp
  show ?case
  proof (cases rest)
    case Nil
    with c have "next (links ! q) = length x" using chain_end [of x p links c1 q] by simp
    with q len have "pvar_sum x links (pvalue, q) =
        Some (Continue (pvalue + pvdiff (links ! q), length x))"
      by (simp add: pvar_sum_def Let_def)
    moreover have "loop (pvar_sum x links) (pvalue + pvdiff (links ! q), length x) =
        Some (Some (pvalue + pvdiff (links ! q)))"
      by (subst loop.simps) (simp add: pvar_sum_def)
    ultimately show ?thesis using Nil
      by (subst loop.simps) simp
  next
    case (Cons q' rest')
    with c have "chain x p links (c1 @ q # q' # rest')" by simp
    from chain_step(1) [OF this] q len
    have "pvar_sum x links (pvalue, q) = Some (Continue (pvalue + pvdiff (links ! q), q'))"
      by (simp add: pvar_sum_def Let_def)
    moreover have "chain x p links ((c1 @ [q]) @ rest)" using c by simp
    from Cons.IH [OF this, of "pvalue + pvdiff (links ! q)"] Cons
    have "loop (pvar_sum x links) (pvalue + pvdiff (links ! q), q') =
        Some (Some (pvalue + pvdiff (links ! q) + (\<Sum>i\<leftarrow>rest. pvdiff (links ! i))))" by simp
    ultimately show ?thesis
      by (subst loop.simps) simp
  qed
qed

lemma chain_weights:
  assumes "successively (edge x p links) c" "c \<noteq> []"
  shows "(\<Sum>i\<leftarrow>tl c. pvdiff (links ! i)) = psum x p c"
  using assms
proof (induction c rule: induct_list012)
  case (3 a b c)
  then show ?case by (simp add: edge_def)
qed simp_all

lemma chain_sum:
  assumes "chain x p links c"
  shows "loop (pvar_sum x links) (0, 0) = Some (Some (psum x p c))"
proof -
  from assms obtain c' where c: "c = 0 # c'" by (cases c) (auto simp: chain_def)
  have "chain x p links ([] @ c)" using assms by simp
  from sum_walk [OF this, of 0] c
  have "loop (pvar_sum x links) (0, 0) = Some (Some (pvdiff (links ! 0) + (\<Sum>i\<leftarrow>tl c. pvdiff (links ! i))))"
    by simp
  moreover have "pvdiff (links ! 0) = 0" using assms by (simp add: chain_def)
  moreover have "(\<Sum>i\<leftarrow>tl c. pvdiff (links ! i)) = psum x p c"
    using chain_weights [of x p links c] assms by (simp add: chain_def)
  ultimately show ?thesis by simp
qed

section \<open>Termination\<close>

lemma CheckShortIntervals_total:
  assumes "chain x p links c"
  shows "\<exists>r c'. CheckShortIntervals x links p = Some (Some r) \<and> chain x p r c'"
proof -
  have "\<exists>r c'. CheckShortIntervals x links p = Some (Some r) \<and> chain x p r c' \<and> True"
    by (rule CheckShortIntervals_scan [where J = "\<lambda>_. True" and Q = "\<lambda>_. True", OF assms]) simp_all
  then show ?thesis by simp
qed

lemma MergeIntervalsRecursively_total:
  assumes "chain x p links c" "LSI \<noteq> 0"
  shows "\<exists>r c'. MergeIntervalsRecursively x links p LSI = Some (Some r) \<and> chain x p r c'"
proof -
  have "\<exists>links' c' il'.
     MergeIntervalsRecursively x links p LSI = Some (Some links') \<and>
     chain x p links' c' \<and> bounds c' il' \<and> True \<and> set c' \<subseteq> set c \<and> length il' \<le> 2"
    by (rule MergeIntervalsRecursively_merge [where J = "\<lambda>_ _. True", OF _ _ assms]) simp_all
  then show ?thesis by blast
qed

lemma pvar_stages:
  assumes "3 \<le> length x"
  shows "\<exists>l1 l2 l3 c. DetectLocalExtrema x (new_links (length x)) p = Some l1 \<and>
     CheckShortIntervals x l1 p = Some (Some l2) \<and>
     MergeIntervalsRecursively x l2 p 4 = Some (Some l3) \<and>
     chain x p l3 c \<and>
     loop (pvar_sum x l3) (0, 0) = Some (Some (psum x p c)) \<and>
     pvar x p = Some (Some (psum x p c))"
proof -
  from assms have "2 \<le> length x" by simp
  from DetectLocalExtrema_chain [OF this, of p]
  obtain l1 c1 where 1: "DetectLocalExtrema x (new_links (length x)) p = Some l1" "chain x p l1 c1"
    by blast
  from CheckShortIntervals_total [OF 1(2)]
  obtain l2 c2 where 2: "CheckShortIntervals x l1 p = Some (Some l2)" "chain x p l2 c2" by blast
  from MergeIntervalsRecursively_total [OF 2(2), of 4]
  obtain l3 c3 where 3: "MergeIntervalsRecursively x l2 p 4 = Some (Some l3)" "chain x p l3 c3"
    by auto
  note 4 = chain_sum [OF 3(2)]
  from assms 1 2 3 4 have "pvar x p = Some (Some (psum x p c3))"
    by (simp add: pvar_def seq_def)
  with 1 2 3 4 show ?thesis by blast
qed

section \<open>The invariant at every observation point\<close>

lemma merge_triple:
  assumes c: "chain x p links c" and b: "bounds c (front @ a # v # e # rest)"
  shows "\<exists>links1 c1'. Merge2GoodInt x p links a v e = Some (Some links1) \<and>
        chain x p links1 c1' \<and> bounds c1' (front @ a # e # rest) \<and> set c1' \<subseteq> set c"
proof -
  from b have srt: "sorted (front @ a # v # e # rest)"
    and dst: "distinct (butlast (front @ a # v # e # rest))"
    and sub: "set (front @ a # v # e # rest) \<subseteq> set c"
    by (simp_all add: bounds_def)
  from srt have le: "a \<le> v" "v \<le> e" by (auto simp: sorted_append)
  from dst have "a \<noteq> v" by (auto simp: butlast_append split: if_splits)
  with le have av: "a < v" by simp
  show ?thesis
  proof (cases "v = e")
    case True
    then have "Merge2GoodInt x p links a v e = Some (Some links)"
      by (simp add: Merge2GoodInt_def)
    moreover have "bounds c (front @ a # e # rest)"
      using bounds_degenerate [of c front a v rest] b True by simp
    ultimately show ?thesis using c by blast
  next
    case False
    with le have ve: "v < e" by simp
    from sub have "a \<in> set c" "v \<in> set c" "e \<in> set c" by auto
    from split3 [OF chain_sorted [OF c] this av ve]
    obtain c1 left right c2 where sp: "c = c1 @ left @ [v] @ right @ c2"
      "left \<noteq> []" "hd left = a" "right \<noteq> []" "last right = e" by blast
    from Merge2GoodInt_merged [OF c [unfolded sp(1)] sp(2,4)] sp(3,5)
    obtain links1 c1' where m: "Merge2GoodInt x p links a v e = Some (Some links1)"
      "chain x p links1 c1'" "merged x p c1 left v right c2 c1'" by auto
    have s: "sorted_wrt (<) (c1 @ left @ [v] @ right @ c2)"
      using chain_sorted [OF c] sp(1) by simp
    have "bounds c1' (front @ a # e # rest)"
      using bounds_merged [OF _ s sp(2,4) m(3), of front rest] b sp by simp
    moreover have "set c1' \<subseteq> set c"
      using merged_subset(1) [OF m(3)] sp(1) by simp
    ultimately show ?thesis using m by auto
  qed
qed

lemma fst_scan_state [simp]: "fst (scan_state x p l g) = l"
  by (cases g) (simp add: scan_state_def)

lemma config_inv_scan:
  assumes "window x p l g" "length (fst (snd g)) = 4"
  shows "config_inv x p (InScan (scan_state x p l g))"
  using assms by (cases g) auto

lemma start_config_inv:
  assumes c: "chain x p links c"
  shows "\<exists>cf. start x links = Some cf \<and> config_inv x p cf \<and> links_of cf = links"
proof -
  from c obtain c' where c0: "c = 0 # c'" by (cases c) (auto simp: chain_def)
  with c have win: "window x p links ([], [0], tl c)" by (simp add: window_def)
  note r = repeat_first [OF win, of 3]
  show ?thesis
  proof (cases "widen 3 [] [0] (tl c)")
    case None
    with r have "start x links = Some (InFill links)"
      by (simp add: start_def)
    with c show ?thesis by auto
  next
    case (Some g)
    obtain c1 w c2 where g: "g = (c1, w, c2)" by (cases g)
    from widen_Nil [OF Some [unfolded g]] have h: "c1 = []" "hd w = 0" by simp_all
    from widen_append [OF Some [unfolded g]] have len: "length w = 4" by simp
    from repeat_backtrack [OF win, of 3] Some have wg: "window x p links g" by simp
    from r Some g h have "start x links = Some (InScan (scan_state x p links g))"
      by (simp add: start_def scan_state_def)
    moreover have "config_inv x p (InScan (scan_state x p links g))"
      using wg len g by (intro config_inv_scan) simp_all
    moreover have "links_of (InScan (scan_state x p links g)) = links" by simp
    ultimately show ?thesis by blast
  qed
qed

lemma step_config_inv:
  assumes "config_inv x p cf"
  shows "(\<exists>links. cf = InSum links) \<or>
     (\<exists>cf'. step x p cf = Some cf' \<and> config_inv x p cf' \<and>
        (\<not> in_detect cf \<longrightarrow> \<not> in_detect cf' \<and>
           set (chain_of (links_of cf')) \<subseteq> set (chain_of (links_of cf))))"
proof (cases cf)
  case (InDetect i s)
  obtain links le dir where s: "s = (links, le, dir)" by (cases s)
  show ?thesis
  proof (cases "i < length x")
    case False
    with assms InDetect obtain c where "chain x p (fst s) c" by auto
    from start_config_inv [OF this] False InDetect show ?thesis by auto
  next
    case True
    with assms InDetect s obtain pc where inv: "detect_inv x p i (links, le, dir) pc" by auto
    note d = detect_invD [OF inv]
    let ?w = "pvar_diff (x ! i - x ! le) p"
    show ?thesis
    proof (cases "i + 1 = length x")
      case True
      with d(8) d(3) have le: "le < i" by auto
      have "DetectLocalExtrema_body x p i (links, le, dir) = Some (join links le i ?w, i, dir)"
        using detect_body_link [OF d(1) d(2) le, of dir p] True by simp
      with InDetect s d(2) have "step x p cf = Some (InDetect (i + 1) (join links le i ?w, i, dir))"
        by simp
      moreover have "config_inv x p (InDetect (i + 1) (join links le i ?w, i, dir))"
        using detect_step_last(1) [OF inv True] True by auto
      ultimately show ?thesis using InDetect by simp
    next
      case False
      with d(2) have i: "i + 1 < length x" by simp
      show ?thesis
      proof (cases "(x ! i < x ! (i + 1) \<and> dir = - 1) \<or> (x ! (i + 1) < x ! i \<and> dir = 1)")
        case True
        from True d(15) have "x ! i \<noteq> x ! le"
          unfolding direction_info_def by auto
        with d(8) have le: "le < i" by auto
        have "DetectLocalExtrema_body x p i (links, le, dir) = Some (join links le i ?w, i, - dir)"
          using detect_body_link [OF d(1) d(2) le, of dir p] True i by simp
        with InDetect s d(2) have "step x p cf = Some (InDetect (i + 1) (join links le i ?w, i, - dir))"
          by simp
        moreover have "config_inv x p (InDetect (i + 1) (join links le i ?w, i, - dir))"
          using detect_step_link [OF inv i True] i by auto
        ultimately show ?thesis using InDetect by simp
      next
        case False
        let ?d = "if x ! i < x ! (i + 1) then 1 else if x ! (i + 1) < x ! i then - 1 else dir"
        from False have no: "\<not> (x ! i < x ! (i + 1) \<and> dir = - 1)"
          "\<not> (x ! (i + 1) < x ! i \<and> dir = 1)" by blast+
        have "DetectLocalExtrema_body x p i (links, le, dir) = Some (links, le, ?d)"
          using detect_body_keep [OF i no] .
        with InDetect s d(2) have "step x p cf = Some (InDetect (i + 1) (links, le, ?d))"
          by simp
        moreover have "config_inv x p (InDetect (i + 1) (links, le, ?d))"
          using detect_step_keep [OF inv i no] i by auto
        ultimately show ?thesis using InDetect by simp
      qed
    qed
  qed
next
  case (InScan s)
  with assms obtain g where g: "window x p (fst s) g" "length (fst (snd g)) = 4"
    "s = scan_state x p (fst s) g" by auto
  obtain c1 w c2 where gg: "g = (c1, w, c2)" by (cases g)
  define l where "l = fst s"
  from g gg l_def have w: "window x p l (c1, w, c2)" "length w = 4"
    and s: "s = scan_state x p l (c1, w, c2)" by simp_all
  from w(2) have w2: "2 \<le> length w" and wne: "w \<noteq> []" by auto
  from w(1) have c: "chain x p l (c1 @ w @ c2)" by (simp add: window_def)
  have col: "chain_of l = c1 @ w @ c2" using chain_of_chain [OF c] .
  have lo: "links_of cf = l" using InScan l_def by simp
  show ?thesis
  proof (cases "pvar_diff (x ! hd w - x ! last w) p \<le> psum x p w")
    case True
    note k = body_keep [OF w(1) w2 True]
    show ?thesis
    proof (cases "c2 = []")
      case True
      with k(1) s InScan have "step x p cf = Some (InFill l)" by simp
      with c lo show ?thesis by auto
    next
      case False
      let ?g = "(c1 @ [hd w], tl w @ [hd c2], tl c2)"
      from k(1) s False InScan have st: "step x p cf = Some (InScan (scan_state x p l ?g))" by simp
      have "config_inv x p (InScan (scan_state x p l ?g))"
        using k(2) [OF False] w(2) by (intro config_inv_scan) simp_all
      moreover have "links_of (InScan (scan_state x p l ?g)) = l" by simp
      ultimately show ?thesis using st lo by auto
    qed
  next
    case False
    then have er: "psum x p w < pvar_diff (x ! hd w - x ! last w) p" by simp
    define L where "L = join l (hd w) (last w) (pvar_diff (x ! hd w - x ! last w) p)"
    note e = body_erase [OF w(1) w2 er, folded L_def]
    have coL: "chain_of L = c1 @ [hd w, last w] @ c2" using chain_of_chain [OF e(2)] .
    have sub: "set (chain_of L) \<subseteq> set (chain_of l)"
      unfolding coL col using wne by auto
    show ?thesis
    proof (cases "widen 3 (c1 @ [hd w]) [last w] c2")
      case None
      with e(1) s InScan have "step x p cf = Some (InFill L)" by (simp add: scan_flow_def)
      with e(2) sub lo show ?thesis by auto
    next
      case (Some g')
      obtain c1' w' c2' where g': "g' = (c1', w', c2')" by (cases g')
      from e(1) s Some InScan have st: "step x p cf = Some (InScan (scan_state x p L g'))"
        by (simp add: scan_flow_def)
      from widen_append [OF Some [unfolded g']] have "length w' = 4" by simp
      then have "config_inv x p (InScan (scan_state x p L g'))"
        using e(3) [OF Some] g' by (intro config_inv_scan) simp_all
      moreover have "links_of (InScan (scan_state x p L g')) = L" by simp
      ultimately show ?thesis using st lo sub by auto
    qed
  qed
next
  case (InFill links)
  with assms obtain c where c: "chain x p links c" by auto
  from c have ne: "c \<noteq> []" and hd: "hd c = 0" and last: "last c = length x - 1"
    and n: "0 < length x" by (simp_all add: chain_def)
  have "chain x p links ([] @ c)" using c by simp
  from fill_walk [OF this ne, of 4 0 "[]"] hd
  have "loop (MergeIntervalsRecursively_fill x links 4) (0, 0, []) = Some (Some (marks 4 0 c))"
    by simp
  moreover have "size_minus_1 x = last c" using last n by (simp add: size_minus_1_def)
  ultimately have "step x p cf = Some (InMerge links [] (marks 4 0 c @ [last c]))"
    using InFill by simp
  moreover have "bounds c ([] @ marks 4 0 c @ [last c])"
    using bounds_marks [OF chain_sorted [OF c] ne] by simp
  ultimately show ?thesis using c InFill by auto
next
  case (InMerge links front rest)
  with assms obtain c where c: "chain x p links c" "bounds c (front @ rest)" by auto
  show ?thesis
  proof (cases "2 < length rest")
    case True
    then obtain a v e r where r: "rest = a # v # e # r"
      by (cases rest; cases "tl rest"; cases "tl (tl rest)") auto
    from merge_triple [OF c(1) c(2) [unfolded r]]
    obtain links1 c1' where m: "Merge2GoodInt x p links a v e = Some (Some links1)"
      "chain x p links1 c1'" "bounds c1' (front @ a # e # r)" "set c1' \<subseteq> set c" by blast
    have "step x p cf = Some (InMerge links1 (front @ [a]) (e # r))"
      using InMerge r m(1) by simp
    moreover have "config_inv x p (InMerge links1 (front @ [a]) (e # r))"
      using m(2,3) by auto
    moreover have "set (chain_of links1) \<subseteq> set (chain_of links)"
      using chain_of_chain [OF m(2)] chain_of_chain [OF c(1)] m(4) by simp
    ultimately show ?thesis using InMerge by simp
  next
    case False
    then have "step x p cf =
       (if 2 < length (front @ rest) then Some (InMerge links [] (front @ rest))
        else Some (InSum links))"
      using InMerge by (cases rest; cases "tl rest"; cases "tl (tl rest)") auto
    with c InMerge show ?thesis by auto
  qed
next
  case (InSum links)
  then show ?thesis by simp
qed

lemma run_config_inv:
  assumes "config_inv x p cf" "run x p k cf = Some cf'"
  shows "config_inv x p cf'"
    and "\<not> in_detect cf \<Longrightarrow>
         \<not> in_detect cf' \<and> set (chain_of (links_of cf')) \<subseteq> set (chain_of (links_of cf))"
proof -
  have "config_inv x p cf' \<and> (\<not> in_detect cf \<longrightarrow>
         \<not> in_detect cf' \<and> set (chain_of (links_of cf')) \<subseteq> set (chain_of (links_of cf)))"
    using assms
  proof (induction k arbitrary: cf)
    case 0
    then show ?case by simp
  next
    case (Suc k)
    from Suc.prems(2) obtain c1 where c1: "step x p cf = Some c1" "run x p k c1 = Some cf'"
      by (auto split: option.splits)
    with step_config_inv [OF Suc.prems(1)] have "config_inv x p c1"
      "\<not> in_detect cf \<longrightarrow> \<not> in_detect c1 \<and>
         set (chain_of (links_of c1)) \<subseteq> set (chain_of (links_of cf))" by auto
    with Suc.IH [OF _ c1(2)] show ?case by blast
  qed
  then show "config_inv x p cf'"
    and "\<not> in_detect cf \<Longrightarrow>
         \<not> in_detect cf' \<and> set (chain_of (links_of cf')) \<subseteq> set (chain_of (links_of cf))"
    by blast+
qed

lemma initial_config_inv:
  assumes "2 \<le> length x"
  shows "\<exists>c0. initial x = Some c0 \<and> config_inv x p c0"
proof -
  from assms have ne: "0 < length x" by auto
  define L where "L = ((new_links (length x))[0 := (new_links (length x) ! 0)\<lparr>prev := 0, pvdiff := 0\<rparr>])"
  define L' where "L' = L[length x - 1 := (L ! (length x - 1))\<lparr>next := length x\<rparr>]"
  have len: "length L = length x" by (simp add: L_def new_links_def)
  have "initial x = Some (InDetect 0 (L', 0, 0))"
    unfolding initial_def Let_def
    using ne len by (simp add: new_links_def L'_def L_def)
  moreover have "detect_inv x p 0 (L', 0, 0) [0]"
    using detect_init [OF assms, of p, folded L_def, folded L'_def] .
  ultimately show ?thesis using ne by auto
qed

lemma reached_config_inv:
  assumes "2 \<le> length x" "reached x p cf"
  shows "config_inv x p cf"
proof -
  from assms(2) obtain c0 k where r: "initial x = Some c0" "run x p k c0 = Some cf"
    unfolding reached_def by blast
  with initial_config_inv [OF assms(1), of p] have "config_inv x p c0" by auto
  from run_config_inv(1) [OF this r(2)] show ?thesis .
qed

lemma reached_run:
  assumes "reached x p cf" "run x p k cf = Some cf'"
  shows "reached x p cf'"
proof -
  have run_add: "run x p (j + k) c = Some cf'" if "run x p j c = Some cf" for j c
    using that assms(2) by (induction j arbitrary: c) (auto split: option.splits)
  from assms(1) show ?thesis unfolding reached_def using run_add by blast
qed

lemma config_inv_chain:
  assumes "config_inv x p cf" "\<not> in_detect cf"
  shows "chain x p (links_of cf) (chain_of (links_of cf))"
proof -
  from assms obtain c where "chain x p (links_of cf) c"
    by (cases cf) (auto simp: window_def scan_state_def split: prod.splits)
  with chain_of_chain [OF this] show ?thesis by simp
qed

lemma config_inv_fields:
  assumes "config_inv x p cf"
  shows "length (links_of cf) = length x"
    and "list_all (\<lambda>r. prev r \<le> length x \<and> next r \<le> length x) (links_of cf)"
    and "prev (links_of cf ! 0) = 0" "pvdiff (links_of cf ! 0) = 0"
proof -
  have "length (links_of cf) = length x \<and>
    list_all (\<lambda>r. prev r \<le> length x \<and> next r \<le> length x) (links_of cf) \<and>
    prev (links_of cf ! 0) = 0 \<and> pvdiff (links_of cf ! 0) = 0"
  proof (cases "\<exists>i s. cf = InDetect i s \<and> i < length x")
    case True
    then obtain i s where cf: "cf = InDetect i s" "i < length x" by blast
    obtain links le dir where s: "s = (links, le, dir)" by (cases s)
    from assms cf s obtain pc where "detect_inv x p i (links, le, dir) pc" by auto
    from detect_invD [OF this] cf s show ?thesis by simp
  next
    case False
    with assms obtain c where "chain x p (links_of cf) c"
      by (cases cf) (auto simp: window_def scan_state_def split: prod.splits)
    then show ?thesis by (simp add: chain_def)
  qed
  then show "length (links_of cf) = length x"
    and "list_all (\<lambda>r. prev r \<le> length x \<and> next r \<le> length x) (links_of cf)"
    and "prev (links_of cf ! 0) = 0" "pvdiff (links_of cf ! 0) = 0" by simp_all
qed

section \<open>The observation points are those of \<^verbatim>\<open>pvar\<close>\<close>

lemma run_add:
  "run x p j c = Some c' \<Longrightarrow> run x p k c' = Some c'' \<Longrightarrow> run x p (j + k) c = Some c''"
  by (induction j arbitrary: c) (auto split: option.splits)

lemma run_Suc:
  "step x p c = Some c' \<Longrightarrow> run x p k c' = Some c'' \<Longrightarrow> run x p (Suc k) c = Some c''"
  by simp

lemma run_detect:
  "DetectLocalExtrema_for x p i s = Some s' \<Longrightarrow> i \<le> length x \<Longrightarrow>
   run x p (length x - i) (InDetect i s) = Some (InDetect (length x) s')"
proof (induction "length x - i" arbitrary: i s)
  case 0
  then show ?case by (simp add: DetectLocalExtrema_for_done)
next
  case (Suc m)
  then have i: "i < length x" by simp
  with Suc.prems(1) obtain s1 where s1: "DetectLocalExtrema_body x p i s = Some s1"
    "DetectLocalExtrema_for x p (i + 1) s1 = Some s'"
    by (subst (asm) DetectLocalExtrema_for.simps) (auto split: option.splits)
  have m: "m = length x - (i + 1)" using Suc(2) by simp
  have "i + 1 \<le> length x" using i by simp
  from Suc(1) [OF m s1(2) this] have "run x p m (InDetect (i + 1) s1) = Some (InDetect (length x) s')"
    using m by simp
  moreover have "step x p (InDetect i s) = Some (InDetect (i + 1) s1)" using i s1(1) by simp
  moreover have "length x - i = Suc m" using Suc(2) by simp
  ultimately show ?case by simp
qed

lemma run_scan:
  assumes "loop (CheckShortIntervals_body x p) s = Some (Some l)"
  shows "\<exists>k. run x p k (InScan s) = Some (InFill l)"
proof -
  have "body = CheckShortIntervals_body x p \<longrightarrow>
        (\<forall>l. y = Some l \<longrightarrow> (\<exists>k. run x p k (InScan s) = Some (InFill l)))"
    if "loop body s = Some y" for body s y
    using that
  proof (rule loop.raw_induct [rotated, where P = "\<lambda>body s y. body = CheckShortIntervals_body x p \<longrightarrow>
        (\<forall>l. y = Some l \<longrightarrow> (\<exists>k. run x p k (InScan s) = Some (InFill l)))"], goal_cases)
    case (1 lp body s y)
    show ?case
    proof (intro impI allI)
      fix l assume b: "body = CheckShortIntervals_body x p" and y: "y = Some l"
      show "\<exists>k. run x p k (InScan s) = Some (InFill l)"
      proof (cases "body s")
        case None
        with 1(2) y show ?thesis by simp
      next
        case (Some f)
        show ?thesis
        proof (cases f)
          case (Return r)
          with Some 1(2) y b have "step x p (InScan s) = Some (InFill l)" by simp
          then have "run x p 1 (InScan s) = Some (InFill l)" by simp
          then show ?thesis by blast
        next
          case (Continue s')
          with Some 1(2) have "lp body s' = Some y" by simp
          from 1(1) [OF this] b y obtain k where "run x p k (InScan s') = Some (InFill l)"
            by blast
          moreover have "step x p (InScan s) = Some (InScan s')" using Some Continue b by simp
          ultimately have "run x p (Suc k) (InScan s) = Some (InFill l)" by simp
          then show ?thesis by blast
        qed
      qed
    qed
  qed
  with assms show ?thesis by blast
qed

lemma run_pass:
  "MergeIntervalsRecursively_pass x p l f r = Some (Some (l', il')) \<Longrightarrow>
   \<exists>k f' r'. run x p k (InMerge l f r) = Some (InMerge l' f' r') \<and> length r' < 3 \<and> f' @ r' = il'"
proof (induction x p l f r rule: MergeIntervalsRecursively_pass.induct, goal_cases)
  case (1 x p links front a v b rest)
  from 1(2) obtain links1 where m: "Merge2GoodInt x p links a v b = Some (Some links1)"
    "MergeIntervalsRecursively_pass x p links1 (front @ [a]) (b # rest) = Some (Some (l', il'))"
    by (auto split: option.splits)
  from 1(1) [OF m(1) refl m(2)] obtain k f' r' where
    "run x p k (InMerge links1 (front @ [a]) (b # rest)) = Some (InMerge l' f' r')"
    "length r' < 3" "f' @ r' = il'" by blast
  moreover have "step x p (InMerge links front (a # v # b # rest)) =
      Some (InMerge links1 (front @ [a]) (b # rest))" using m(1) by simp
  ultimately have "run x p (Suc k) (InMerge links front (a # v # b # rest)) = Some (InMerge l' f' r')"
    by simp
  with \<open>length r' < 3\<close> \<open>f' @ r' = il'\<close> show ?case by blast
next
  case (2 x p links front)
  then have "run x p 0 (InMerge links front []) = Some (InMerge l' front [])" "front @ [] = il'"
    by simp_all
  then show ?case by (metis list.size(3) zero_less_numeral)
next
  case (3 x p links front v)
  then have "run x p 0 (InMerge links front [v]) = Some (InMerge l' front [v])" "front @ [v] = il'"
    by simp_all
  moreover have "length [v] < 3" by simp
  ultimately show ?case by blast
next
  case (4 x p links front v va)
  then have "run x p 0 (InMerge links front [v, va]) = Some (InMerge l' front [v, va])"
    "front @ [v, va] = il'"
    by simp_all
  moreover have "length [v, va] < 3" by simp
  ultimately show ?case by blast
qed


lemma run_short:
  assumes "length r < 3"
  shows "step x p (InMerge l f r) =
     (if 2 < length (f @ r) then Some (InMerge l [] (f @ r)) else Some (InSum l))"
  using assms by (cases r; cases "tl r"; cases "tl (tl r)") auto

lemma run_sum_only:
  assumes "run x p k (InMerge l [] il) = Some (InSum l3)" "length il \<le> 2"
  shows "l3 = l"
proof (cases k)
  case 0
  with assms show ?thesis by simp
next
  case (Suc k')
  have "step x p (InMerge l [] il) = Some (InSum l)"
    using run_short [of il x p l "[]"] assms(2) by simp
  with assms(1) Suc have "run x p k' (InSum l) = Some (InSum l3)" by simp
  then show ?thesis by (cases k') auto
qed

lemma run_while:
  assumes "chain x p l c" "bounds c il"
  shows "\<exists>k l3. MergeIntervalsRecursively_while x p l il = Some (Some l3) \<and>
           run x p k (InMerge l [] il) = Some (InSum l3)"
  using assms
proof (induction "length il" arbitrary: il l c rule: less_induct)
  case less
  show ?case
  proof (cases "2 < length il")
    case False
    then have "MergeIntervalsRecursively_while x p l il = Some (Some l)"
      by (subst MergeIntervalsRecursively_while.simps) simp
    moreover have "step x p (InMerge l [] il) = Some (InSum l)"
      using run_short [of il x p l "[]"] False by simp
    then have "run x p 1 (InMerge l [] il) = Some (InSum l)" by simp
    ultimately show ?thesis by blast
  next
    case True
    have "\<exists>links' c' il'.
       MergeIntervalsRecursively_pass x p l [] il = Some (Some (links', il')) \<and>
       chain x p links' c' \<and> bounds c' il' \<and> True \<and> set c' \<subseteq> set c \<and>
       (if 2 < length il then length il' < length ([] @ il) else il' = [] @ il)"
      by (rule pass_merge [where J = "\<lambda>_ _. True"]) (use less.prems in simp_all)
    with True obtain l' c' il' where
      ps: "MergeIntervalsRecursively_pass x p l [] il = Some (Some (l', il'))"
      and c': "chain x p l' c'" "bounds c' il'" and sh: "length il' < length il" by auto
    from run_pass [OF ps] obtain k1 f' r' where
      k1: "run x p k1 (InMerge l [] il) = Some (InMerge l' f' r')" "length r' < 3" "f' @ r' = il'"
      by blast
    from less.hyps [OF sh c'] obtain k2 l3 where
      w: "MergeIntervalsRecursively_while x p l' il' = Some (Some l3)"
      and k2: "run x p k2 (InMerge l' [] il') = Some (InSum l3)" by blast
    have wh: "MergeIntervalsRecursively_while x p l il = Some (Some l3)"
      using True ps w by (subst MergeIntervalsRecursively_while.simps) simp
    show ?thesis
    proof (cases "2 < length il'")
      case True
      with run_short [OF k1(2), of x p l' f'] k1(3)
      have "step x p (InMerge l' f' r') = Some (InMerge l' [] il')" by simp
      with k2 have "run x p (Suc k2) (InMerge l' f' r') = Some (InSum l3)" by simp
      from run_add [OF k1(1) this] wh show ?thesis by blast
    next
      case False
      then have "l3 = l'" using run_sum_only [OF k2] by simp
      moreover from False run_short [OF k1(2), of x p l' f'] k1(3)
      have "step x p (InMerge l' f' r') = Some (InSum l')" by simp
      ultimately have "run x p 1 (InMerge l' f' r') = Some (InSum l3)" by simp
      from run_add [OF k1(1) this] wh show ?thesis by blast
    qed
  qed
qed

lemma pvar_run:
  assumes "3 \<le> length x"
  shows "\<exists>l1 l2 l3 c0 k v.
           DetectLocalExtrema x (new_links (length x)) p = Some l1 \<and>
           CheckShortIntervals x l1 p = Some (Some l2) \<and>
           MergeIntervalsRecursively x l2 p 4 = Some (Some l3) \<and>
           initial x = Some c0 \<and> run x p k c0 = Some (InSum l3) \<and>
           loop (pvar_sum x l3) (0, 0) = Some (Some v) \<and> pvar x p = Some (Some v)"
proof -
  from pvar_stages [OF assms, of p] obtain l1 l2 l3 c where
    st: "DetectLocalExtrema x (new_links (length x)) p = Some l1"
    "CheckShortIntervals x l1 p = Some (Some l2)"
    "MergeIntervalsRecursively x l2 p 4 = Some (Some l3)"
    "loop (pvar_sum x l3) (0, 0) = Some (Some (psum x p c))"
    "pvar x p = Some (Some (psum x p c))" by blast
  from assms have ne: "0 < length x" by auto
  define L where "L = ((new_links (length x))[0 := (new_links (length x) ! 0)\<lparr>prev := 0, pvdiff := 0\<rparr>])"
  define L' where "L' = L[length x - 1 := (L ! (length x - 1))\<lparr>next := length x\<rparr>]"
  have len: "length L = length x" by (simp add: L_def new_links_def)
  have i0: "initial x = Some (InDetect 0 (L', 0, 0))"
    unfolding initial_def Let_def
    using ne len by (simp add: new_links_def L'_def L_def)
  have "DetectLocalExtrema x (new_links (length x)) p =
     DetectLocalExtrema_for x p 0 (L', 0, 0) \<bind> (\<lambda>(links, last_extremum, direction). Some links)"
    unfolding DetectLocalExtrema_def Let_def
    using ne len by (simp add: new_links_def L'_def L_def)
  with st(1) obtain le dir where "DetectLocalExtrema_for x p 0 (L', 0, 0) = Some (l1, le, dir)"
    by (auto simp: bind_eq_Some_conv)
  from run_detect [OF this]
  have r1: "run x p (length x) (InDetect 0 (L', 0, 0)) = Some (InDetect (length x) (l1, le, dir))"
    by simp
  have s1: "step x p (InDetect (length x) (l1, le, dir)) = start x l1" by simp
  have "\<exists>k. run x p k (InDetect (length x) (l1, le, dir)) = Some (InFill l2)"
  proof (cases "repeat 3 (CheckShortIntervals_first x l1) (0, 0)")
    case None
    with st(2) show ?thesis by (simp add: CheckShortIntervals_def)
  next
    case (Some f)
    show ?thesis
    proof (cases f)
      case (Return r)
      with Some st(2) have "start x l1 = Some (InFill l2)"
        by (simp add: CheckShortIntervals_def start_def)
      with s1 have "run x p 1 (InDetect (length x) (l1, le, dir)) = Some (InFill l2)" by simp
      then show ?thesis by blast
    next
      case (Continue ec)
      obtain e cs where ec: "ec = (e, cs)" by (cases ec)
      with Some Continue st(2) have "start x l1 = Some (InScan (l1, 0, e, cs))"
        "loop (CheckShortIntervals_body x p) (l1, 0, e, cs) = Some (Some l2)"
        by (simp_all add: CheckShortIntervals_def start_def)
      with run_scan [of x p "(l1, 0, e, cs)" l2] s1 obtain k where
        "run x p (Suc k) (InDetect (length x) (l1, le, dir)) = Some (InFill l2)" by auto
      then show ?thesis by blast
    qed
  qed
  then obtain k2 where r2: "run x p k2 (InDetect (length x) (l1, le, dir)) = Some (InFill l2)" by blast
  from DetectLocalExtrema_chain [of x p] assms st(1) obtain c1 where c1: "chain x p l1 c1" by auto
  from CheckShortIntervals_total [OF c1] st(2) obtain c2 where c2: "chain x p l2 c2" by auto
  from c2 have ne2: "c2 \<noteq> []" and hd2: "hd c2 = 0" and last2: "last c2 = length x - 1"
    by (simp_all add: chain_def)
  have "chain x p l2 ([] @ c2)" using c2 by simp
  from fill_walk [OF this ne2, of 4 0 "[]"] hd2
  have fl: "loop (MergeIntervalsRecursively_fill x l2 4) (0, 0, []) = Some (Some (marks 4 0 c2))"
    by simp
  have sz: "size_minus_1 x = last c2" using last2 ne by (simp add: size_minus_1_def)
  have b2: "bounds c2 (marks 4 0 c2 @ [last c2])"
    using bounds_marks [OF chain_sorted [OF c2] ne2] .
  from run_while [OF c2 b2] obtain k3 l3' where
    wh: "MergeIntervalsRecursively_while x p l2 (marks 4 0 c2 @ [last c2]) = Some (Some l3')"
    and "run x p k3 (InMerge l2 [] (marks 4 0 c2 @ [last c2])) = Some (InSum l3')" by blast
  moreover have "l3' = l3" using st(3) fl sz wh by (simp add: MergeIntervalsRecursively_def seq_def)
  moreover have "step x p (InFill l2) = Some (InMerge l2 [] (marks 4 0 c2 @ [last c2]))"
    using fl sz by simp
  ultimately have r3: "run x p (Suc k3) (InFill l2) = Some (InSum l3)" by simp
  from run_add [OF run_add [OF r1 r2] r3] i0 st show ?thesis by blast
qed

section \<open>The claims about the stages\<close>

lemma chain_subseq:
  assumes "chain x p links c"
  shows "c \<in> set (subseqs [0..<length x])"
proof -
  have "set c \<subseteq> set [0..<length x]" using chain_bound [OF assms] by auto
  moreover have "sorted_wrt (<) c" using assms by (rule chain_sorted)
  moreover have "sorted_wrt (\<le>) [0..<length x]" by simp
  ultimately have "subseq c [0..<length x]" by (rule sorted_subset_imp_subseq)
  then show ?thesis by simp
qed

lemma chain_lower_bound:
  assumes "chain x p links c"
  shows "psum x p c \<le> p_variation x p"
  unfolding p_variation_def using chain_subseq [OF assms]
  by (intro Max_ge) auto

lemma chain_weights_sum:
  assumes "chain x p links c"
  shows "(\<Sum>i\<leftarrow>tl c. pvdiff (links ! i)) = psum x p c"
  using chain_weights [of x p links c] assms by (simp add: chain_def)

lemma run_last:
  "run x p (Suc k) c = Some c'' \<Longrightarrow> \<exists>c'. run x p k c = Some c' \<and> step x p c' = Some c''"
proof (induction k arbitrary: c)
  case 0
  then show ?case by (auto split: option.splits)
next
  case (Suc k)
  from Suc.prems obtain c1 where c1: "step x p c = Some c1" "run x p (Suc k) c1 = Some c''"
    by (auto split: option.splits)
  from Suc.IH [OF c1(2)] obtain c' where "run x p k c1 = Some c'" "step x p c' = Some c''" by blast
  with c1(1) have "run x p (Suc k) c = Some c'" by simp
  with \<open>step x p c' = Some c''\<close> show ?case by blast
qed

lemma step_to_sum:
  assumes "step x p cf = Some (InSum l)"
  shows "\<exists>f r. cf = InMerge l f r \<and> length r < 3 \<and> length (f @ r) \<le> 2"
proof (cases cf)
  case (InDetect i s)
  with assms show ?thesis
    by (auto simp: start_def split: if_splits option.splits flow.splits prod.splits)
next
  case (InScan s)
  with assms show ?thesis by (auto split: option.splits flow.splits)
next
  case (InFill links)
  with assms show ?thesis by (auto split: option.splits)
next
  case (InMerge links f r)
  show ?thesis
  proof (cases "length r < 3")
    case True
    with assms InMerge run_short [OF True, of x p links f] show ?thesis
      by (auto split: if_splits)
  next
    case False
    then obtain a v b r' where "r = a # v # b # r'"
      by (cases r; cases "tl r"; cases "tl (tl r)") auto
    with assms InMerge show ?thesis by (auto split: option.splits)
  qed
next
  case (InSum links)
  with assms show ?thesis by simp
qed


lemma two_bounds:
  assumes "chain x p links c" "bounds c il" "length il \<le> 2" "2 \<le> length x"
  shows "il = [0, length x - 1]"
proof -
  from assms(1) have c: "hd c = 0" "last c = length x - 1" by (simp_all add: chain_def)
  from assms(2) have il: "il \<noteq> []" "hd il = hd c" "last il = last c" by (simp_all add: bounds_def)
  show ?thesis
  proof (cases il)
    case Nil
    with il show ?thesis by simp
  next
    case (Cons a il')
    show ?thesis
    proof (cases il')
      case Nil
      with Cons il c assms(4) show ?thesis by auto
    next
      case (Cons b il'')
      with \<open>il = a # il'\<close> assms(3) have "il = [a, b]" by simp
      with il c show ?thesis by simp
    qed
  qed
qed

text \<open>
  Claim C3.  At every observation point after \<^verbatim>\<open>DetectLocalExtrema\<close> (throughout
  \<^verbatim>\<open>CheckShortIntervals\<close> and \<^verbatim>\<open>MergeIntervalsRecursively\<close>) the links form a single
  chain from index 0 to index \<open>n - 1\<close> through strictly increasing indices, ending at the
  sentinel \<open>n\<close>; the sum of the weights of its non-initial nodes is a lower bound on the
  p-variation; and the chain at any later point contains no index that the chain at an
  earlier point does not contain.
\<close>

theorem chain_at_every_stage:
  assumes "3 \<le> length x" "reached x p cf" "\<not> in_detect cf" "run x p k cf = Some cf'"
  shows "chain x p (links_of cf) (chain_of (links_of cf)) \<and>
     hd (chain_of (links_of cf)) = 0 \<and> last (chain_of (links_of cf)) = length x - 1 \<and>
     sorted_wrt (<) (chain_of (links_of cf)) \<and>
     next (links_of cf ! (length x - 1)) = length x \<and>
     (\<Sum>i\<leftarrow>tl (chain_of (links_of cf)). pvdiff (links_of cf ! i)) \<le> p_variation x p \<and>
     set (chain_of (links_of cf')) \<subseteq> set (chain_of (links_of cf))"
proof -
  from assms(1) have 2: "2 \<le> length x" by simp
  note inv = reached_config_inv [OF 2 assms(2)]
  note c = config_inv_chain [OF inv assms(3)]
  from c have "hd (chain_of (links_of cf)) = 0" "last (chain_of (links_of cf)) = length x - 1"
    "next (links_of cf ! (length x - 1)) = length x" by (simp_all add: chain_def)
  moreover note chain_sorted [OF c] c
  moreover have "(\<Sum>i\<leftarrow>tl (chain_of (links_of cf)). pvdiff (links_of cf ! i)) \<le> p_variation x p"
    using chain_weights_sum [OF c] chain_lower_bound [OF c] by simp
  moreover have "set (chain_of (links_of cf')) \<subseteq> set (chain_of (links_of cf))"
    using run_config_inv(2) [OF inv assms(4) assms(3)] by simp
  ultimately show ?thesis by simp
qed

text \<open>
  With the entries of \<^verbatim>\<open>IterList\<close> followed, every stage returns: on an input of length
  at least 3 the run passes through finitely many observation points, the last
  call-free point of \<^verbatim>\<open>MergeIntervalsRecursively\<close> holds a boundary list of exactly the
  two entries 0 and \<open>n - 1\<close>, and the final walk returns.
\<close>

lemma pvar_returns:
  "\<exists>v. pvar x p = Some (Some v) \<and>
     (3 \<le> length x \<longrightarrow>
        (\<exists>l1 l2 l3 c0 k f r.
           DetectLocalExtrema x (new_links (length x)) p = Some l1 \<and>
           CheckShortIntervals x l1 p = Some (Some l2) \<and>
           MergeIntervalsRecursively x l2 p 4 = Some (Some l3) \<and>
           loop (pvar_sum x l3) (0, 0) = Some (Some v) \<and>
           initial x = Some c0 \<and> run x p k c0 = Some (InMerge l3 f r) \<and>
           f @ r = [0, length x - 1] \<and> step x p (InMerge l3 f r) = Some (InSum l3)))"
proof (cases "3 \<le> length x")
  case False
  then have "length x \<le> 1 \<or> length x = 2" by auto
  then show ?thesis using False by (auto simp: pvar_def get_def)
next
  case True
  from pvar_run [OF True, of p] obtain l1 l2 l3 c0 k v where
    st: "DetectLocalExtrema x (new_links (length x)) p = Some l1"
    "CheckShortIntervals x l1 p = Some (Some l2)"
    "MergeIntervalsRecursively x l2 p 4 = Some (Some l3)"
    and r: "initial x = Some c0" "run x p k c0 = Some (InSum l3)"
    "loop (pvar_sum x l3) (0, 0) = Some (Some v)" "pvar x p = Some (Some v)" by blast
  from True have 2: "2 \<le> length x" by simp
  have "k \<noteq> 0"
  proof
    assume "k = 0"
    with r(2) have "c0 = InSum l3" by simp
    with r(1) show False by (auto simp: initial_def Let_def bind_eq_Some_conv)
  qed
  then obtain k' where k: "k = Suc k'" by (cases k) auto
  from run_last [OF r(2) [unfolded k]] obtain cf where
    cf: "run x p k' c0 = Some cf" "step x p cf = Some (InSum l3)" by blast
  from step_to_sum [OF cf(2)] obtain f rr where
    m: "cf = InMerge l3 f rr" "length (f @ rr) \<le> 2" by blast
  have "reached x p cf" unfolding reached_def using r(1) cf(1) by blast
  from reached_config_inv [OF 2 this] m obtain c' where
    c': "chain x p l3 c'" "bounds c' (f @ rr)" by auto
  from two_bounds [OF c' m(2) 2] have fr: "f @ rr = [0, length x - 1]" .
  from st r cf m(1) fr show ?thesis by blast
qed


subsection \<open>A run on a concrete input\<close>

lemma example_initial:
  "initial [0, 2, 1, 4] =
     Some (InDetect 0
       ([\<lparr>prev = 0, next = 0, pvdiff = 0\<rparr>, \<lparr>prev = 0, next = 0, pvdiff = 0\<rparr>,
         \<lparr>prev = 0, next = 0, pvdiff = 0\<rparr>, \<lparr>prev = 0, next = 4, pvdiff = 0\<rparr>], 0, 0))"
  by (simp add: initial_def new_links_def Let_def numeral_eq_Suc)

lemma example_detect:
  "run [0, 2, 1, 4] 2 (Suc (Suc (Suc (Suc (Suc 0)))))
     (InDetect 0
       ([\<lparr>prev = 0, next = 0, pvdiff = 0\<rparr>, \<lparr>prev = 0, next = 0, pvdiff = 0\<rparr>,
         \<lparr>prev = 0, next = 0, pvdiff = 0\<rparr>, \<lparr>prev = 0, next = 4, pvdiff = 0\<rparr>], 0, 0)) =
     Some (InScan
       ([\<lparr>prev = 0, next = 1, pvdiff = 0\<rparr>, \<lparr>prev = 0, next = 2, pvdiff = 4\<rparr>,
         \<lparr>prev = 1, next = 3, pvdiff = 1\<rparr>, \<lparr>prev = 2, next = 4, pvdiff = 9\<rparr>], 0, 3, 14))"
  by (simp add: DetectLocalExtrema_body_def Let_def pvar_diff_def std_pow_def start_def
      CheckShortIntervals_first_def numeral_3_eq_3)

lemma example_scan:
  "step [0, 2, 1, 4] 2
     (InScan
       ([\<lparr>prev = 0, next = 1, pvdiff = 0\<rparr>, \<lparr>prev = 0, next = 2, pvdiff = 4\<rparr>,
         \<lparr>prev = 1, next = 3, pvdiff = 1\<rparr>, \<lparr>prev = 2, next = 4, pvdiff = 9\<rparr>], 0, 3, 14)) =
     Some (InFill
       [\<lparr>prev = 0, next = 3, pvdiff = 0\<rparr>, \<lparr>prev = 0, next = 2, pvdiff = 4\<rparr>,
        \<lparr>prev = 1, next = 3, pvdiff = 1\<rparr>, \<lparr>prev = 0, next = 4, pvdiff = 16\<rparr>])"
  by (simp add: CheckShortIntervals_body_def Let_def pvar_diff_def std_pow_def
      CheckShortIntervals_backtrack_def numeral_3_eq_3)


lemma example_reached_scan:
  "reached [0, 2, 1, 4] 2 (InScan ([\<lparr>prev = 0, next = 1, pvdiff = 0\<rparr>, \<lparr>prev = 0, next = 2, pvdiff = 4\<rparr>,
         \<lparr>prev = 1, next = 3, pvdiff = 1\<rparr>, \<lparr>prev = 2, next = 4, pvdiff = 9\<rparr>], 0, 3, 14))"
  unfolding reached_def using example_initial example_detect by blast

lemma example_reached_fill:
  "reached [0, 2, 1, 4] 2 (InFill [\<lparr>prev = 0, next = 3, pvdiff = 0\<rparr>, \<lparr>prev = 0, next = 2, pvdiff = 4\<rparr>,
         \<lparr>prev = 1, next = 3, pvdiff = 1\<rparr>, \<lparr>prev = 0, next = 4, pvdiff = 16\<rparr>])"
proof -
  have "run [0, 2, 1, 4] 2 (Suc 0) (InScan ([\<lparr>prev = 0, next = 1, pvdiff = 0\<rparr>, \<lparr>prev = 0, next = 2, pvdiff = 4\<rparr>,
         \<lparr>prev = 1, next = 3, pvdiff = 1\<rparr>, \<lparr>prev = 2, next = 4, pvdiff = 9\<rparr>], 0, 3, 14)) =
      Some (InFill [\<lparr>prev = 0, next = 3, pvdiff = 0\<rparr>, \<lparr>prev = 0, next = 2, pvdiff = 4\<rparr>,
         \<lparr>prev = 1, next = 3, pvdiff = 1\<rparr>, \<lparr>prev = 0, next = 4, pvdiff = 16\<rparr>])"
    using example_scan by simp
  from reached_run [OF example_reached_scan this] show ?thesis .
qed

theorem chain_at_every_stage_witness:
  "3 \<le> length [0, 2, 1, 4 :: real] \<and>
   reached [0, 2, 1, 4] 2 (InScan ([\<lparr>prev = 0, next = 1, pvdiff = 0\<rparr>, \<lparr>prev = 0, next = 2, pvdiff = 4\<rparr>,
         \<lparr>prev = 1, next = 3, pvdiff = 1\<rparr>, \<lparr>prev = 2, next = 4, pvdiff = 9\<rparr>], 0, 3, 14)) \<and>
   \<not> in_detect (InScan ([\<lparr>prev = 0, next = 1, pvdiff = 0\<rparr>, \<lparr>prev = 0, next = 2, pvdiff = 4\<rparr>,
         \<lparr>prev = 1, next = 3, pvdiff = 1\<rparr>, \<lparr>prev = 2, next = 4, pvdiff = 9\<rparr>], 0, 3, 14)) \<and>
   run [0, 2, 1, 4] 2 1 (InScan ([\<lparr>prev = 0, next = 1, pvdiff = 0\<rparr>, \<lparr>prev = 0, next = 2, pvdiff = 4\<rparr>,
         \<lparr>prev = 1, next = 3, pvdiff = 1\<rparr>, \<lparr>prev = 2, next = 4, pvdiff = 9\<rparr>], 0, 3, 14)) = Some (InFill [\<lparr>prev = 0, next = 3, pvdiff = 0\<rparr>, \<lparr>prev = 0, next = 2, pvdiff = 4\<rparr>,
         \<lparr>prev = 1, next = 3, pvdiff = 1\<rparr>, \<lparr>prev = 0, next = 4, pvdiff = 16\<rparr>]) \<and>
   chain_of [\<lparr>prev = 0, next = 1, pvdiff = 0\<rparr>, \<lparr>prev = 0, next = 2, pvdiff = 4\<rparr>,
         \<lparr>prev = 1, next = 3, pvdiff = 1\<rparr>, \<lparr>prev = 2, next = 4, pvdiff = 9\<rparr>] = [0, 1, 2, 3] \<and>
   chain_of [\<lparr>prev = 0, next = 3, pvdiff = 0\<rparr>, \<lparr>prev = 0, next = 2, pvdiff = 4\<rparr>,
         \<lparr>prev = 1, next = 3, pvdiff = 1\<rparr>, \<lparr>prev = 0, next = 4, pvdiff = 16\<rparr>] = [0, 3] \<and>
   (14 :: real) \<le> p_variation [0, 2, 1, 4] 2 \<and>
   set (chain_of [\<lparr>prev = 0, next = 3, pvdiff = 0\<rparr>, \<lparr>prev = 0, next = 2, pvdiff = 4\<rparr>,
         \<lparr>prev = 1, next = 3, pvdiff = 1\<rparr>, \<lparr>prev = 0, next = 4, pvdiff = 16\<rparr>]) \<subseteq> set (chain_of [\<lparr>prev = 0, next = 1, pvdiff = 0\<rparr>, \<lparr>prev = 0, next = 2, pvdiff = 4\<rparr>,
         \<lparr>prev = 1, next = 3, pvdiff = 1\<rparr>, \<lparr>prev = 2, next = 4, pvdiff = 9\<rparr>])"
proof -
  have r: "run [0, 2, 1, 4] 2 1 (InScan ([\<lparr>prev = 0, next = 1, pvdiff = 0\<rparr>, \<lparr>prev = 0, next = 2, pvdiff = 4\<rparr>,
         \<lparr>prev = 1, next = 3, pvdiff = 1\<rparr>, \<lparr>prev = 2, next = 4, pvdiff = 9\<rparr>], 0, 3, 14)) = Some (InFill [\<lparr>prev = 0, next = 3, pvdiff = 0\<rparr>, \<lparr>prev = 0, next = 2, pvdiff = 4\<rparr>,
         \<lparr>prev = 1, next = 3, pvdiff = 1\<rparr>, \<lparr>prev = 0, next = 4, pvdiff = 16\<rparr>])"
    using example_scan by simp
  have c1: "chain_of [\<lparr>prev = 0, next = 1, pvdiff = 0\<rparr>, \<lparr>prev = 0, next = 2, pvdiff = 4\<rparr>,
         \<lparr>prev = 1, next = 3, pvdiff = 1\<rparr>, \<lparr>prev = 2, next = 4, pvdiff = 9\<rparr>] = [0, 1, 2, 3]"
    by (simp add: chain_of_def numeral_eq_Suc)
  have c2: "chain_of [\<lparr>prev = 0, next = 3, pvdiff = 0\<rparr>, \<lparr>prev = 0, next = 2, pvdiff = 4\<rparr>,
         \<lparr>prev = 1, next = 3, pvdiff = 1\<rparr>, \<lparr>prev = 0, next = 4, pvdiff = 16\<rparr>] = [0, 3]"
    by (simp add: chain_of_def numeral_eq_Suc)
  from chain_at_every_stage [OF _ example_reached_scan _ r] c1 c2 r example_reached_scan
  show ?thesis by simp
qed


text \<open>
  Claim C8.  At every observation point of the whole computation every stored \<open>prev\<close> and
  \<open>next\<close> lies in \<open>[0, n]\<close>, and the code up to the next observation point (or, at the
  last one, the final walk) returns normally: no read or write of the links or of the
  input falls outside \<open>[0, n - 1]\<close>.  So \<^verbatim>\<open>pvar\<close> returns a value, never the out-of-range
  result.
\<close>

theorem links_stay_in_bounds:
  assumes "3 \<le> length x" "reached x p cf"
  shows "length (links_of cf) = length x \<and>
     list_all (\<lambda>r. prev r \<le> length x \<and> next r \<le> length x) (links_of cf) \<and>
     ((\<exists>cf'. step x p cf = Some cf') \<or>
      (\<exists>l v. cf = InSum l \<and> loop (pvar_sum x l) (0, 0) = Some (Some v))) \<and>
     (\<exists>v. pvar x p = Some (Some v))"
proof -
  from assms(1) have 2: "2 \<le> length x" by simp
  note inv = reached_config_inv [OF 2 assms(2)]
  note f = config_inv_fields [OF inv]
  have "(\<exists>cf'. step x p cf = Some cf') \<or>
      (\<exists>l v. cf = InSum l \<and> loop (pvar_sum x l) (0, 0) = Some (Some v))"
  proof (cases "\<exists>l. cf = InSum l")
    case True
    then obtain l where l: "cf = InSum l" by blast
    with inv obtain c where "chain x p l c" by auto
    from chain_sum [OF this] l show ?thesis by blast
  next
    case False
    with step_config_inv [OF inv] show ?thesis by blast
  qed
  moreover from pvar_run [OF assms(1), of p] have "\<exists>v. pvar x p = Some (Some v)" by blast
  ultimately show ?thesis using f by simp
qed

theorem links_stay_in_bounds_witness:
  "3 \<le> length [0, 2, 1, 4 :: real] \<and>
   reached [0, 2, 1, 4] 2 (InFill [\<lparr>prev = 0, next = 3, pvdiff = 0\<rparr>, \<lparr>prev = 0, next = 2, pvdiff = 4\<rparr>,
         \<lparr>prev = 1, next = 3, pvdiff = 1\<rparr>, \<lparr>prev = 0, next = 4, pvdiff = 16\<rparr>]) \<and>
   list_all (\<lambda>r. prev r \<le> 4 \<and> next r \<le> 4) [\<lparr>prev = 0, next = 3, pvdiff = 0\<rparr>, \<lparr>prev = 0, next = 2, pvdiff = 4\<rparr>,
         \<lparr>prev = 1, next = 3, pvdiff = 1\<rparr>, \<lparr>prev = 0, next = 4, pvdiff = 16\<rparr>] \<and>
   (\<exists>cf'. step [0, 2, 1, 4] 2 (InFill [\<lparr>prev = 0, next = 3, pvdiff = 0\<rparr>, \<lparr>prev = 0, next = 2, pvdiff = 4\<rparr>,
         \<lparr>prev = 1, next = 3, pvdiff = 1\<rparr>, \<lparr>prev = 0, next = 4, pvdiff = 16\<rparr>]) = Some cf') \<and>
   (\<exists>v. pvar [0, 2, 1, 4] 2 = Some (Some v))"
  using links_stay_in_bounds [OF _ example_reached_fill] example_reached_fill by simp

text \<open>
  Claim C9.  At every observation point \<^verbatim>\<open>links[0].prev\<close> and \<^verbatim>\<open>links[0].pvdiff\<close> are 0,
  as \<^verbatim>\<open>DetectLocalExtrema\<close> sets them; so the final walk, which adds \<^verbatim>\<open>links[0].pvdiff\<close>
  too, returns the sum of the weights of the non-initial nodes of the chain, and this is
  the value of \<^verbatim>\<open>pvar\<close>.
\<close>

theorem head_node_preserved:
  assumes "3 \<le> length x" "reached x p cf"
  shows "prev (links_of cf ! 0) = 0 \<and> pvdiff (links_of cf ! 0) = 0 \<and>
     (\<forall>l. cf = InSum l \<longrightarrow>
        loop (pvar_sum x l) (0, 0) = Some (Some (\<Sum>i\<leftarrow>tl (chain_of l). pvdiff (l ! i)))) \<and>
     (\<exists>l. reached x p (InSum l) \<and>
        pvar x p = Some (Some (\<Sum>i\<leftarrow>tl (chain_of l). pvdiff (l ! i))))"
proof -
  from assms(1) have 2: "2 \<le> length x" by simp
  note inv = reached_config_inv [OF 2 assms(2)]
  note f = config_inv_fields [OF inv]
  have walk: "loop (pvar_sum x l) (0, 0) = Some (Some (\<Sum>i\<leftarrow>tl (chain_of l). pvdiff (l ! i)))"
    if "reached x p (InSum l)" for l
  proof -
    from reached_config_inv [OF 2 that] obtain c where c: "chain x p l c" by auto
    from chain_sum [OF c] chain_weights_sum [OF c] chain_of_chain [OF c] show ?thesis by simp
  qed
  from pvar_run [OF assms(1), of p] obtain l3 c0 k v where
    r: "initial x = Some c0" "run x p k c0 = Some (InSum l3)"
    "loop (pvar_sum x l3) (0, 0) = Some (Some v)" "pvar x p = Some (Some v)" by blast
  have r3: "reached x p (InSum l3)" unfolding reached_def using r(1,2) by blast
  from walk [OF r3] r(3,4) have "pvar x p = Some (Some (\<Sum>i\<leftarrow>tl (chain_of l3). pvdiff (l3 ! i)))"
    by simp
  with r3 f walk assms(2) show ?thesis by blast
qed

theorem head_node_preserved_witness:
  "3 \<le> length [0, 2, 1, 4 :: real] \<and>
   reached [0, 2, 1, 4] 2 (InFill [\<lparr>prev = 0, next = 3, pvdiff = 0\<rparr>, \<lparr>prev = 0, next = 2, pvdiff = 4\<rparr>,
         \<lparr>prev = 1, next = 3, pvdiff = 1\<rparr>, \<lparr>prev = 0, next = 4, pvdiff = 16\<rparr>]) \<and>
   prev ([\<lparr>prev = 0, next = 3, pvdiff = 0\<rparr>, \<lparr>prev = 0, next = 2, pvdiff = 4\<rparr>,
         \<lparr>prev = 1, next = 3, pvdiff = 1\<rparr>, \<lparr>prev = 0, next = 4, pvdiff = 16\<rparr>] ! 0) = 0 \<and>
   pvdiff ([\<lparr>prev = 0, next = 3, pvdiff = 0\<rparr>, \<lparr>prev = 0, next = 2, pvdiff = 4\<rparr>,
         \<lparr>prev = 1, next = 3, pvdiff = 1\<rparr>, \<lparr>prev = 0, next = 4, pvdiff = 16\<rparr>] ! 0) = 0 \<and>
   (\<exists>l. reached [0, 2, 1, 4] 2 (InSum l) \<and>
      pvar [0, 2, 1, 4] 2 = Some (Some (\<Sum>i\<leftarrow>tl (chain_of l). pvdiff (l ! i))))"
  using head_node_preserved [OF _ example_reached_fill] example_reached_fill by simp

lemma monotone_chain:
  assumes c: "chain x p links c" and e: "extrema_chain x c" and n: "3 \<le> length x"
    and m: "sorted x \<or> sorted (rev x)"
  shows "c = [0, length x - 1]"
proof -
  have short: "length c \<le> 2"
  proof (rule ccontr)
    assume "\<not> length c \<le> 2"
    then obtain a b d post where cs: "c = a # b # d # post"
      by (cases c; cases "tl c"; cases "tl (tl c)") auto
    from e have "alternating x ([] @ a # b # d # post)" by (simp add: extrema_chain_def cs)
    then have z: "zigzag x a b d" by (rule alternating_triple)
    from chain_sorted [OF c] cs have lt: "a < b" "b < d" by auto
    from chain_bound [OF c, of d] cs have d: "d < length x" by simp
    from m show False
    proof
      assume "sorted x"
      then have "x ! a \<le> x ! b" "x ! b \<le> x ! d" using lt d by (simp_all add: sorted_iff_nth_mono)
      with z show False by (auto simp: zigzag_def)
    next
      assume "sorted (rev x)"
      then have r: "\<And>i j. i \<le> j \<Longrightarrow> j < length x \<Longrightarrow> x ! j \<le> x ! i"
        by (metis sorted_rev_iff_nth_mono)
      have "x ! b \<le> x ! a" "x ! d \<le> x ! b" using lt d by (auto intro!: r)
      with z show False by (auto simp: zigzag_def)
    qed
  qed
  from c have "c \<noteq> []" "hd c = 0" "last c = length x - 1" by (simp_all add: chain_def)
  with short n show ?thesis
    by (cases c; cases "tl c") auto
qed

lemma single_edge_stages:
  assumes c: "chain x p links [0, length x - 1]"
  shows "CheckShortIntervals x links p = Some (Some links)"
    and "MergeIntervalsRecursively x links p 4 = Some (Some links)"
    and "loop (pvar_sum x links) (0, 0) = Some (Some (pvar_diff (x ! 0 - x ! (length x - 1)) p))"
proof -
  from c have win: "window x p links ([], [0], [length x - 1])" by (simp add: window_def)
  from repeat_first [OF win, of 3]
  show "CheckShortIntervals x links p = Some (Some links)"
    by (simp add: CheckShortIntervals_def numeral_3_eq_3)
  from c have "chain x p links ([] @ [0, length x - 1])" by simp
  from fill_walk [OF this, of 4 0 "[]"]
  have "loop (MergeIntervalsRecursively_fill x links 4) (0, 0, []) = Some (Some [0])" by simp
  moreover from c have "0 < length x" by (simp add: chain_def)
  ultimately show "MergeIntervalsRecursively x links p 4 = Some (Some links)"
    by (simp add: MergeIntervalsRecursively_def seq_def size_minus_1_def
        MergeIntervalsRecursively_while.simps)
  from chain_sum [OF c]
  show "loop (pvar_sum x links) (0, 0) = Some (Some (pvar_diff (x ! 0 - x ! (length x - 1)) p))"
    by simp
qed

text \<open>
  Claim C5.  On a monotone input (non-decreasing or non-increasing, ties allowed) of
  length \<open>n \<ge> 3\<close>, \<^verbatim>\<open>DetectLocalExtrema\<close> returns links whose chain is the single edge from
  0 to \<open>n - 1\<close>, for every \<open>p\<close>.  The two later stages leave these links as they are, and
  \<^verbatim>\<open>pvar\<close> returns \<open>|x[0] - x[n-1]|^p\<close>; this part leaves out \<open>p < 0\<close> on a constant
  input, where the weight of the edge is \<^verbatim>\<open>std::pow(0, p)\<close>, an infinity, which is not a
  value of \<open>real\<close>.
\<close>

theorem monotone_single_edge:
  assumes "3 \<le> length x" and "sorted x \<or> sorted (rev x)"
  shows "\<exists>links. DetectLocalExtrema x (new_links (length x)) p = Some links \<and>
     chain_of links = [0, length x - 1] \<and>
     next (links ! 0) = length x - 1 \<and> prev (links ! (length x - 1)) = 0 \<and>
     next (links ! (length x - 1)) = length x \<and>
     (0 \<le> p \<or> x ! 0 \<noteq> x ! (length x - 1) \<longrightarrow>
        edge x p links 0 (length x - 1) \<and>
        CheckShortIntervals x links p = Some (Some links) \<and>
        MergeIntervalsRecursively x links p 4 = Some (Some links) \<and>
        pvar x p = Some (Some (std_pow \<bar>x ! 0 - x ! (length x - 1)\<bar> p)))"
proof -
  from assms(1) have "2 \<le> length x" by simp
  from DetectLocalExtrema_chain [OF this, of p] obtain links c where
    d: "DetectLocalExtrema x (new_links (length x)) p = Some links"
    and c: "chain x p links c" and e: "extrema_chain x c" by blast
  from monotone_chain [OF c e assms] have cs: "c = [0, length x - 1]" .
  note c' = c [unfolded cs]
  note s = single_edge_stages [OF c']
  from c' have "chain x p links ([] @ 0 # (length x - 1) # [])" by simp
  then have ed: "edge x p links 0 (length x - 1)" by (rule chain_edge)
  from ed have l: "next (links ! 0) = length x - 1" "prev (links ! (length x - 1)) = 0"
    by (simp_all add: edge_def)
  from c' have n: "next (links ! (length x - 1)) = length x" by (simp add: chain_def)
  have "pvar x p = Some (Some (std_pow \<bar>x ! 0 - x ! (length x - 1)\<bar> p))"
    using assms(1) d s by (simp add: pvar_def seq_def pvar_diff_def)
  with d chain_of_chain [OF c'] ed s(1,2) l n show ?thesis by blast
qed

theorem monotone_single_edge_witness:
  "3 \<le> length [1, 2, 2, 5 :: real] \<and> (sorted [1, 2, 2, 5 :: real] \<or> sorted (rev [1, 2, 2, 5 :: real])) \<and>
   (0 \<le> (2::real) \<or> [1, 2, 2, 5 :: real] ! 0 \<noteq> [1, 2, 2, 5] ! (length [1, 2, 2, 5 :: real] - 1)) \<and>
   (\<exists>links. DetectLocalExtrema [1, 2, 2, 5] (new_links 4) 2 = Some links \<and>
      chain_of links = [0, 3] \<and> pvar [1, 2, 2, 5] 2 = Some (Some 16))"
  using monotone_single_edge [of "[1, 2, 2, 5]" 2] by (simp add: std_pow_def numeral_eq_Suc) blast








section \<open>The iterators of the merge loop\<close>

lemma inner_last_triple:
  assumes "Merge2GoodInt x p links a v b = Some (Some links')"
  shows "MergeIntervalsRecursively_inner x p links (front @ [a, v, b])
           (length front) (length front + 1) (length front + 2) = Some None"
  using assms
  by (subst MergeIntervalsRecursively_inner.simps)
     (simp add: get_def nth_append IterList_erase_def IterList_next_def)



lemma inner_pass:
  "2 \<le> length rest \<Longrightarrow>
   MergeIntervalsRecursively_inner x p links (front @ rest)
     (length front) (length front + 1) (length front + 2) =
   (case MergeIntervalsRecursively_pass x p links front rest of
      None \<Rightarrow> None
    | Some None \<Rightarrow> Some None
    | Some (Some r) \<Rightarrow> if even (length rest) then Some (Some r) else Some None)"
proof (induction x p links front rest rule: MergeIntervalsRecursively_pass.induct, goal_cases)
  case (1 x p links front a v b rest)
  show ?case
  proof (cases "Merge2GoodInt x p links a v b")
    case None
    then show ?thesis
      by (subst MergeIntervalsRecursively_inner.simps) (simp add: get_def nth_append)
  next
    case (Some r)
    show ?thesis
    proof (cases r)
      case None
      with Some show ?thesis
        by (subst MergeIntervalsRecursively_inner.simps) (simp add: get_def nth_append)
    next
      case (Some links')
      note m = \<open>Merge2GoodInt x p links a v b = Some r\<close> [unfolded Some]
      show ?thesis
      proof (cases rest)
        case Nil
        with m inner_last_triple [OF m, of front] show ?thesis by simp
      next
        case (Cons d rest')
        have "MergeIntervalsRecursively_inner x p links (front @ a # v # b # rest)
            (length front) (length front + 1) (length front + 2) =
          MergeIntervalsRecursively_inner x p links' ((front @ [a]) @ b # rest)
            (length (front @ [a])) (length (front @ [a]) + 1) (length (front @ [a]) + 2)"
          using m Cons
          by (subst MergeIntervalsRecursively_inner.simps)
             (simp add: get_def nth_append IterList_erase_def IterList_next_def)
        also have "\<dots> = (case MergeIntervalsRecursively_pass x p links' (front @ [a]) (b # rest) of
            None \<Rightarrow> None
          | Some None \<Rightarrow> Some None
          | Some (Some r) \<Rightarrow> if even (length (b # rest)) then Some (Some r) else Some None)"
          using 1(1) [OF m refl] Cons by simp
        finally show ?thesis using m by (simp split: option.splits)
      qed
    qed
  qed
next
  case (2 x p links front)
  then show ?case by simp
next
  case (3 x p links front v)
  then show ?case by simp
next
  case (4 x p links front v va)
  then show ?case
    by (subst MergeIntervalsRecursively_inner.simps) simp
qed






section \<open>Short inputs and degenerate merges\<close>

text \<open>
  Claim C2.  \<^verbatim>\<open>pvar\<close> returns 0 on a sequence of length 0 or 1, for every \<open>p\<close>, and
  \<open>|x[0] - x[1]|^p\<close> (the value of \<^verbatim>\<open>std::pow\<close>, which is 1 at \<open>p = 0\<close>) on a sequence
  of length 2; neither case reaches the extrema, short-interval or merge stage.  At
  length 2 the case \<open>p < 0\<close> with \<open>x[0] = x[1]\<close> is left out: there \<^verbatim>\<open>std::pow(0, p)\<close> is
  an infinity, which is not a value of \<open>real\<close>.
\<close>

theorem pvar_short_sequences:
  "(length x \<le> 1 \<longrightarrow> pvar x p = Some (Some 0)) \<and>
   (length x = 2 \<and> (0 \<le> p \<or> x ! 0 \<noteq> x ! 1) \<longrightarrow>
      pvar x p = Some (Some (if p = 0 then 1 else \<bar>x ! 0 - x ! 1\<bar> powr p)))"
  by (simp add: pvar_def get_def std_pow_def)

theorem pvar_short_sequences_witness:
  "length [3::real] \<le> 1 \<and> pvar [3] 2 = Some (Some 0) \<and>
   length [2::real, 5] = 2 \<and> (0 \<le> (3::real) \<or> [2::real, 5] ! 0 \<noteq> [2, 5] ! 1) \<and>
   pvar [2, 5] 3 = Some (Some 27) \<and>
   length [2::real, 4] = 2 \<and> (0 \<le> (- 1::real) \<or> [2::real, 4] ! 0 \<noteq> [2, 4] ! 1) \<and>
   pvar [2, 4] (- 1) = Some (Some (1 / 2))"
  using pvar_short_sequences [of "[3]" 2] pvar_short_sequences [of "[2, 5]" 3]
    pvar_short_sequences [of "[2, 4]" "- 1"]
  by (simp add: powr_minus_divide)

text \<open>
  Claim C10.  \<^verbatim>\<open>Merge2GoodInt(a, v, b)\<close> returns the links unchanged whenever
  \<open>a = v\<close> or \<open>v = b\<close>; so a pass over a boundary list in which the appended last index
  duplicates its predecessor drops the duplicate and leaves the links as they are.
\<close>

theorem Merge2GoodInt_degenerate:
  "a = v \<or> v = b \<Longrightarrow>
     Merge2GoodInt x p links a v b = Some (Some links) \<and>
     MergeIntervalsRecursively_pass x p links front (a # v # b # rest) =
       MergeIntervalsRecursively_pass x p links (front @ [a]) (b # rest)"
  by (simp add: Merge2GoodInt_def)

theorem Merge2GoodInt_degenerate_witness:
  "((1::nat) = 2 \<or> (2::nat) = 2) \<and>
   Merge2GoodInt [0, 1, 0] 1 (new_links 3) 1 2 2 = Some (Some (new_links 3)) \<and>
   MergeIntervalsRecursively_pass [0, 1, 0] 1 (new_links 3) [] [1, 2, 2] =
     Some (Some (new_links 3, [1, 2]))"
  using Merge2GoodInt_degenerate [where a = 1 and v = 2 and b = 2 and x = "[0, 1, 0]" and p = 1
      and links = "new_links 3" and front = "[]" and rest = "[]"]
  by simp

end
